theory Spec2Isabelle
  imports Main "HOL-Library.Multiset" "HOL-Library.Sublist"
begin

section \<open>JavaScript values\<close>

text \<open>
  The values the store handles. An object carries its prototype (\<open>None\<close> is the
  \<open>null\<close> prototype) and its own properties; a function object is named by its identity.
  An object contains its whole prototype chain, so two objects on one chain are the same
  object exactly when they are equal as terms.
\<close>

datatype jsobj = JsObj (proto: "jsobj option") (props: "(string \<times> jsval) list")
and jsval =
    JUndefined
  | JNull
  | JBool bool
  | JNum int
  | JStr string
  | JFun nat
  | JObj jsobj

fun typeof :: "jsval \<Rightarrow> string" where
  "typeof JUndefined = ''undefined''"
| "typeof JNull = ''object''"
| "typeof (JBool b) = ''boolean''"
| "typeof (JNum n) = ''number''"
| "typeof (JStr s) = ''string''"
| "typeof (JFun f) = ''function''"
| "typeof (JObj ob) = ''object''"

text \<open>\<open>Object.getPrototypeOf\<close> on an object.\<close>

definition getPrototypeOf :: "jsobj \<Rightarrow> jsobj option" where
  "getPrototypeOf ob = proto ob"

text \<open>
  utils/isPlainObject.js (src/unnamed/part_001), the loop
  \<^verbatim>\<open>while (Object.getPrototypeOf(proto) !== null) proto = Object.getPrototypeOf(proto)\<close>:
  the last object of the prototype chain.
\<close>

fun chainTop :: "jsobj \<Rightarrow> jsobj" where
  "chainTop (JsObj None ps) = JsObj None ps"
| "chainTop (JsObj (Some p) ps) = chainTop p"

definition isPlainObject :: "jsval \<Rightarrow> bool" where
  "isPlainObject obj =
     (if typeof obj \<noteq> ''object'' \<or> obj = JNull then False
      else (case obj of
              JObj ob \<Rightarrow> getPrototypeOf ob = Some (chainTop ob)
            | _ \<Rightarrow> False))"

text \<open>Reading a property: own properties first, then the prototype chain.\<close>

fun getProp :: "jsobj \<Rightarrow> string \<Rightarrow> jsval" where
  "getProp (JsObj p ps) k =
     (case map_of ps k of
        Some v \<Rightarrow> v
      | None \<Rightarrow> (case p of None \<Rightarrow> JUndefined | Some q \<Rightarrow> getProp q k))"

text \<open>\<open>action.type\<close>; dispatch reads it only after the plain-object test.\<close>

definition actionType :: "jsval \<Rightarrow> jsval" where
  "actionType action = (case action of JObj ob \<Rightarrow> getProp ob ''type'' | _ \<Rightarrow> JUndefined)"

section \<open>utils/actionTypes.js (src/unnamed/part_000)\<close>

text \<open>
  The reserved action types. \<open>randomString()\<close> draws from \<open>Math.random\<close>; the two
  draws made when the module is loaded are parameters here.
\<close>

record actionTypes =
  INIT :: string
  REPLACE :: string

definition ActionTypes :: "string \<Rightarrow> string \<Rightarrow> actionTypes" where
  "ActionTypes r1 r2 = \<lparr>INIT = ''@@redux/INIT'' @ r1, REPLACE = ''@@redux/REPLACE'' @ r2\<rparr>"

text \<open>\<open>Object.prototype\<close> (its built-in methods are left out) and the literal \<open>{ type: t }\<close>.\<close>

definition ObjectPrototype :: jsobj where
  "ObjectPrototype = JsObj None []"

definition typeOnly :: "string \<Rightarrow> jsval" where
  "typeOnly t = JObj (JsObj (Some ObjectPrototype) [(''type'', JStr t)])"

section \<open>The store\<close>

datatype error =
    SeveralEnhancers
  | EnhancerNotFunction
  | ReducerNotFunction
  | GetStateWhileReducing
  | ListenerNotFunction
  | SubscribeWhileReducing
  | UnsubscribeWhileReducing
  | ActionNotPlainObject
  | ActionTypeUndefined
  | ReducersMayNotDispatch
  | NextReducerNotFunction
  | NoSuchFunction
  | Thrown jsval

text \<open>
  The variables closed over by the operations of one store (src/compose.js, lines 96-100).
  The listener arrays live in a store of arrays, addressed by number, since
  \<open>currentListeners\<close> and \<open>nextListeners\<close> are references that may alias; \<open>nalloc\<close> is
  the next unused address. \<open>subs\<close> holds, for each call of \<open>subscribe\<close> so far, the variables
  of the closure \<open>unsubscribe\<close> it returned: the listener and \<open>isSubscribed\<close>.
  \<open>notified\<close> is a trace: the listeners called by line 276, in the order of the calls.
\<close>

record world =
  currentReducer :: nat
  currentState :: jsval
  currentListeners :: nat
  nextListeners :: nat
  isDispatching :: bool
  arrays :: "nat \<Rightarrow> nat list"
  nalloc :: nat
  subs :: "(nat \<times> bool) list"
  notified :: "nat list"

definition ensureCanMutateNextListeners :: "world \<Rightarrow> world" where
  "ensureCanMutateNextListeners w =
     (if nextListeners w = currentListeners w
      then w\<lparr>arrays := (arrays w)(nalloc w := arrays w (currentListeners w)),
             nextListeners := nalloc w,
             nalloc := Suc (nalloc w)\<rparr>
      else w)"

definition getState :: "world \<Rightarrow> error + jsval" where
  "getState w = (if isDispatching w then Inl GetStateWhileReducing else Inr (currentState w))"

text \<open>
  \<open>subscribe\<close> returns the closure \<open>unsubscribe\<close>; here its index in \<open>subs\<close>.
\<close>

definition subscribe :: "world \<Rightarrow> jsval \<Rightarrow> (error + nat) \<times> world" where
  "subscribe w listener =
     (case listener of
        JFun f \<Rightarrow>
          if isDispatching w then (Inl SubscribeWhileReducing, w)
          else
            let w1 = w\<lparr>subs := subs w @ [(f, True)]\<rparr>;
                w2 = ensureCanMutateNextListeners w1;
                w3 = w2\<lparr>arrays := (arrays w2)(nextListeners w2 := arrays w2 (nextListeners w2) @ [f])\<rparr>
            in (Inr (length (subs w)), w3)
      | _ \<Rightarrow> (Inl ListenerNotFunction, w))"

text \<open>\<open>Array.prototype.indexOf\<close>: the first index holding the element, or -1.\<close>

fun indexFrom :: "int \<Rightarrow> nat list \<Rightarrow> nat \<Rightarrow> int" where
  "indexFrom i [] x = -1"
| "indexFrom i (y # ys) x = (if y = x then i else indexFrom (i + 1) ys x)"

definition indexOf :: "nat list \<Rightarrow> nat \<Rightarrow> int" where
  "indexOf xs x = indexFrom 0 xs x"

text \<open>
  \<open>xs.splice(start, 1)\<close>: a negative start counts from the end, a start beyond the end
  deletes nothing.
\<close>

definition splice1 :: "nat list \<Rightarrow> int \<Rightarrow> nat list" where
  "splice1 xs start =
     (let len = int (length xs);
          s = (if start < 0 then max (len + start) 0 else min start len)
      in take (nat s) xs @ drop (Suc (nat s)) xs)"

text \<open>
  The closure \<open>unsubscribe\<close> with index \<open>h\<close> (lines 187-205). An index that no
  \<open>subscribe\<close> has returned names no function: calling it is an error of the caller.
\<close>

definition unsubscribe :: "world \<Rightarrow> nat \<Rightarrow> (error + jsval) \<times> world" where
  "unsubscribe w h =
     (if length (subs w) \<le> h then (Inl NoSuchFunction, w)
      else
        let listener = fst (subs w ! h); isSubscribed = snd (subs w ! h)
        in if \<not> isSubscribed then (Inr JUndefined, w)
           else if isDispatching w then (Inl UnsubscribeWhileReducing, w)
           else
             let w1 = w\<lparr>subs := (subs w)[h := (listener, False)]\<rparr>;
                 w2 = ensureCanMutateNextListeners w1;
                 index = indexOf (arrays w2 (nextListeners w2)) listener
             in (Inr JUndefined,
                 w2\<lparr>arrays := (arrays w2)(nextListeners w2 :=
                                   splice1 (arrays w2 (nextListeners w2)) index)\<rparr>))"

subsection \<open>Callbacks\<close>

text \<open>
  A reducer or a listener is code of the application. It may call the store again, so its
  behaviour is a program over the store's operations: each call hands its result to the
  rest of the program, an error raised by a call leaves the program unless the call stands
  in a \<open>Try\<close>, which hands the outcome (value or error) to its continuation.
  The environment gives the program a function object runs on given arguments.
  Callbacks call the four operations \<open>getState\<close>, \<open>subscribe\<close>, \<open>unsubscribe\<close> and
  \<open>dispatch\<close>; \<open>replaceReducer\<close> is an operation of the store below, the observable of
  lines 319-350 is left out.
\<close>

datatype prog =
    Return jsval
  | Throw jsval
  | GetState "jsval \<Rightarrow> prog"
  | Subscribe jsval "nat \<Rightarrow> prog"
  | Unsubscribe nat prog
  | Dispatch jsval "jsval \<Rightarrow> prog"
  | Try prog "error + jsval \<Rightarrow> prog"

type_synonym env = "nat \<Rightarrow> jsval list \<Rightarrow> prog"

type_synonym result = "((error + jsval) \<times> world) option"

text \<open>
  \<open>run\<close> executes a callback, \<open>dispatch\<close> is lines 238-280, \<open>notify\<close> the loop of lines
  274-277 over the array at address \<open>a\<close> from index \<open>i\<close>, reading length and element from the
  array as it is at each round. Listeners may dispatch, so a call need not end: the first
  argument bounds the nesting of the steps, and \<open>None\<close> says the bound was reached.
\<close>

fun run :: "nat \<Rightarrow> env \<Rightarrow> world \<Rightarrow> prog \<Rightarrow> result"
and dispatch :: "nat \<Rightarrow> env \<Rightarrow> world \<Rightarrow> jsval \<Rightarrow> result"
and notify :: "nat \<Rightarrow> env \<Rightarrow> world \<Rightarrow> nat \<Rightarrow> nat \<Rightarrow> result"
where
  "run 0 E w p = None"
| "run (Suc n) E w (Return v) = Some (Inr v, w)"
| "run (Suc n) E w (Throw v) = Some (Inl (Thrown v), w)"
| "run (Suc n) E w (GetState k) =
     (case getState w of
        Inl e \<Rightarrow> Some (Inl e, w)
      | Inr v \<Rightarrow> run n E w (k v))"
| "run (Suc n) E w (Subscribe l k) =
     (case subscribe w l of
        (Inl e, w') \<Rightarrow> Some (Inl e, w')
      | (Inr h, w') \<Rightarrow> run n E w' (k h))"
| "run (Suc n) E w (Unsubscribe h p) =
     (case unsubscribe w h of
        (Inl e, w') \<Rightarrow> Some (Inl e, w')
      | (Inr v, w') \<Rightarrow> run n E w' p)"
| "run (Suc n) E w (Dispatch action k) =
     (case dispatch n E w action of
        None \<Rightarrow> None
      | Some (Inl e, w') \<Rightarrow> Some (Inl e, w')
      | Some (Inr v, w') \<Rightarrow> run n E w' (k v))"
| "run (Suc n) E w (Try p k) =
     (case run n E w p of
        None \<Rightarrow> None
      | Some (r, w') \<Rightarrow> run n E w' (k r))"
| "dispatch 0 E w action = None"
| "dispatch (Suc n) E w action =
     (if \<not> isPlainObject action then Some (Inl ActionNotPlainObject, w)
      else if typeof (actionType action) = ''undefined'' then Some (Inl ActionTypeUndefined, w)
      else if isDispatching w then Some (Inl ReducersMayNotDispatch, w)
      else
        (case run n E (w\<lparr>isDispatching := True\<rparr>) (E (currentReducer w) [currentState w, action]) of
           None \<Rightarrow> None
         | Some (Inl e, w1) \<Rightarrow> Some (Inl e, w1\<lparr>isDispatching := False\<rparr>)
         | Some (Inr s, w1) \<Rightarrow>
             (let w2 = w1\<lparr>currentState := s, isDispatching := False\<rparr>;
                  w3 = w2\<lparr>currentListeners := nextListeners w2\<rparr>
              in case notify n E w3 (currentListeners w3) 0 of
                   None \<Rightarrow> None
                 | Some (Inl e, w4) \<Rightarrow> Some (Inl e, w4)
                 | Some (Inr v, w4) \<Rightarrow> Some (Inr action, w4))))"
| "notify 0 E w a i = None"
| "notify (Suc n) E w a i =
     (if i < length (arrays w a)
      then
        (let listener = arrays w a ! i
         in case run n E (w\<lparr>notified := notified w @ [listener]\<rparr>) (E listener []) of
              None \<Rightarrow> None
            | Some (Inl e, w') \<Rightarrow> Some (Inl e, w')
            | Some (Inr v, w') \<Rightarrow> notify n E w' a (Suc i))
      else Some (Inr JUndefined, w))"

text \<open>
  The notification loop as the specification words it: every listener of a list that is
  fixed beforehand is called once, in the order of the list, with no arguments, and the
  pass stops at the first listener that raises.
\<close>

fun callEach :: "nat \<Rightarrow> env \<Rightarrow> world \<Rightarrow> nat list \<Rightarrow> result" where
  "callEach 0 E w ls = None"
| "callEach (Suc n) E w [] = Some (Inr JUndefined, w)"
| "callEach (Suc n) E w (l # ls) =
     (case run n E (w\<lparr>notified := notified w @ [l]\<rparr>) (E l []) of
        None \<Rightarrow> None
      | Some (Inl e, w') \<Rightarrow> Some (Inl e, w')
      | Some (Inr v, w') \<Rightarrow> callEach n E w' ls)"

text \<open>\<open>replaceReducer\<close> (lines 296-309); it has no return statement, so it returns \<open>undefined\<close>.\<close>

definition replaceReducer :: "nat \<Rightarrow> env \<Rightarrow> actionTypes \<Rightarrow> world \<Rightarrow> jsval \<Rightarrow> result" where
  "replaceReducer n E T w nextReducer =
     (case nextReducer of
        JFun f \<Rightarrow>
          (case dispatch n E (w\<lparr>currentReducer := f\<rparr>) (typeOnly (REPLACE T)) of
             None \<Rightarrow> None
           | Some (Inl e, w') \<Rightarrow> Some (Inl e, w')
           | Some (Inr v, w') \<Rightarrow> Some (Inr JUndefined, w'))
      | _ \<Rightarrow> Some (Inl NextReducerNotFunction, w))"

text \<open>The variables of a new store (lines 96-100): one empty array, referred to twice.\<close>

definition initial :: "nat \<Rightarrow> jsval \<Rightarrow> world" where
  "initial reducer preloadedState =
     \<lparr>currentReducer = reducer, currentState = preloadedState,
      currentListeners = 0, nextListeners = 0, isDispatching = False,
      arrays = (\<lambda>a. []), nalloc = 1, subs = [], notified = []\<rparr>"

text \<open>
  \<open>createStore(reducer, preloadedState, enhancer, arguments[3])\<close>. With an enhancer the
  result is whatever \<open>enhancer(createStore)(reducer, preloadedState)\<close> gives, which is kept
  as that call. Without one the result is the store: its variables after the INIT action;
  its operations are the functions above.
\<close>

datatype created =
    Store world
  | EnhancerCall nat jsval jsval

definition createStore ::
  "nat \<Rightarrow> env \<Rightarrow> actionTypes \<Rightarrow> jsval \<Rightarrow> jsval \<Rightarrow> jsval \<Rightarrow> jsval \<Rightarrow> (error + created) option" where
  "createStore n E T reducer preloadedState enhancer arg3 =
     (if (typeof preloadedState = ''function'' \<and> typeof enhancer = ''function'')
         \<or> (typeof enhancer = ''function'' \<and> typeof arg3 = ''function'')
      then Some (Inl SeveralEnhancers)
      else
        let swap = (typeof preloadedState = ''function'' \<and> typeof enhancer = ''undefined'');
            enhancer' = (if swap then preloadedState else enhancer);
            preloadedState' = (if swap then JUndefined else preloadedState)
        in if typeof enhancer' \<noteq> ''undefined''
           then (case enhancer' of
                   JFun f \<Rightarrow> Some (Inr (EnhancerCall f reducer preloadedState'))
                 | _ \<Rightarrow> Some (Inl EnhancerNotFunction))
           else (case reducer of
                   JFun r \<Rightarrow>
                     (case dispatch n E (initial r preloadedState') (typeOnly (INIT T)) of
                        None \<Rightarrow> None
                      | Some (Inl e, w) \<Rightarrow> Some (Inl e)
                      | Some (Inr v, w) \<Rightarrow> Some (Inr (Store w)))
                 | _ \<Rightarrow> Some (Inl ReducerNotFunction)))"

section \<open>compose and applyMiddleware\<close>

text \<open>
  A function called with a list of arguments. \<open>compose\<close> (src/compose.js, lines 12-26)
  works on functions of any kind of value; the value \<open>undefined\<close> of that kind, which
  \<open>arg => arg\<close> returns when called with no argument, is its first parameter here.
\<close>

type_synonym 'v jsfun = "'v list \<Rightarrow> 'v"

definition compose :: "'v \<Rightarrow> 'v jsfun list \<Rightarrow> 'v jsfun" where
  "compose undef funcs =
     (if length funcs = 0 then (\<lambda>args. case args of [] \<Rightarrow> undef | arg # rest \<Rightarrow> arg)
      else if length funcs = 1 then funcs ! 0
      else foldl (\<lambda>a b. (\<lambda>args. a [b args])) (hd funcs) (tl funcs))"

text \<open>The specification's \<open>f1(f2(... fn(...args)))\<close> for the functions \<open>f # gs\<close>.\<close>

fun nested :: "'v jsfun \<Rightarrow> 'v jsfun list \<Rightarrow> 'v jsfun" where
  "nested f [] args = f args"
| "nested f (g # gs) args = f [nested g gs args]"

text \<open>
  applyMiddleware.js. Of the store it receives from \<open>createStore\<close> it reads \<open>getState\<close> and
  \<open>dispatch\<close>; the other fields are carried along by \<open>...store\<close> (the rest of the
  record). \<open>'d\<close> is the kind of a dispatch function, \<open>'g\<close> that of \<open>getState\<close>.
\<close>

record ('g, 'd) store =
  getState_of :: 'g
  dispatch_of :: 'd

record ('g, 'd) middlewareAPI =
  api_getState :: 'g
  api_dispatch :: 'd

text \<open>
  \<open>applyMiddleware(...middlewares)(createStore)(...args)\<close>. The field \<open>dispatch\<close> of the
  API object is the closure \<open>(...args) => dispatch(...args)\<close> over the variable
  \<open>dispatch\<close>, which holds the raising placeholder of lines 22-27 until line 37 assigns
  the composed function. What that closure does when called is the parameter \<open>forward\<close>;
  a middleware is a function from the API object to its link, and a link a function of
  \<open>next\<close>.
\<close>

definition applyMiddleware ::
  "'d \<Rightarrow> 'd \<Rightarrow> (('g, 'd) middlewareAPI \<Rightarrow> 'd jsfun) list
   \<Rightarrow> ('args \<Rightarrow> ('g, 'd, 'z) store_scheme) \<Rightarrow> 'args \<Rightarrow> ('g, 'd, 'z) store_scheme" where
  "applyMiddleware undef forward middlewares createStore' args =
     (let store = createStore' args;
          middlewareAPI = \<lparr>api_getState = getState_of store, api_dispatch = forward\<rparr>;
          chain = map (\<lambda>middleware. middleware middlewareAPI) middlewares;
          dispatch = compose undef chain [dispatch_of store]
      in store\<lparr>dispatch_of := dispatch\<rparr>)"

text \<open>
  A dispatch function with effects on a state \<open>'s\<close>, and the link of a middleware of the
  shape of the logger of applyMiddleware.js, lines 58-63: its code before \<open>next\<close>, the call
  \<open>next(action)\<close>, its code after, and the result of \<open>next\<close> returned. An error raised
  by \<open>next\<close> leaves the link at once.
\<close>

type_synonym 's dfun = "jsval list \<Rightarrow> 's \<Rightarrow> ((error + jsval) \<times> 's) option"

definition layer :: "('s \<Rightarrow> 's) \<Rightarrow> ('s \<Rightarrow> 's) \<Rightarrow> 's dfun jsfun" where
  "layer pre post nexts =
     (\<lambda>args st.
        case nexts of
          [] \<Rightarrow> Some (Inl NoSuchFunction, pre st)
        | next # rest \<Rightarrow>
            (case next args (pre st) of
               None \<Rightarrow> None
             | Some (Inl e, st') \<Rightarrow> Some (Inl e, st')
             | Some (Inr v, st') \<Rightarrow> Some (Inr v, post st')))"

section \<open>Notions used in the statements\<close>

text \<open>An action that passes the two shape checks of \<open>dispatch\<close>.\<close>

definition acceptable :: "jsval \<Rightarrow> bool" where
  "acceptable action = (isPlainObject action \<and> typeof (actionType action) \<noteq> ''undefined'')"

text \<open>The two assignments of a dispatch whose reducer returned \<open>s\<close> (lines 263 and 273).\<close>

definition commit :: "world \<Rightarrow> jsval \<Rightarrow> world" where
  "commit w s = w\<lparr>currentState := s, currentListeners := nextListeners w\<rparr>"

text \<open>
  An array is frozen when no operation can write to it any more: it is allocated, and
  \<open>nextListeners\<close> refers to it only while \<open>currentListeners\<close> does too.
\<close>

definition frozen :: "world \<Rightarrow> nat \<Rightarrow> bool" where
  "frozen w a = (a < nalloc w \<and> (nextListeners w = a \<longrightarrow> currentListeners w = a))"

text \<open>A step of the store from \<open>w\<close> to \<open>w'\<close> that leaves a frozen array frozen and as it was.\<close>

definition keeps :: "nat \<Rightarrow> world \<Rightarrow> world \<Rightarrow> bool" where
  "keeps a w w' = (frozen w a \<longrightarrow> frozen w' a \<and> arrays w' a = arrays w a)"

text \<open>
  What holds of every store between two operations: both references point to allocated
  arrays, and the next-list holds each listener as often as it has subscriptions that
  were not cancelled.
\<close>

definition store_inv :: "world \<Rightarrow> bool" where
  "store_inv w =
     (nextListeners w < nalloc w \<and> currentListeners w < nalloc w
      \<and> mset (arrays w (nextListeners w)) = mset (map fst (filter snd (subs w))))"

text \<open>The number of links of the prototype chain of an object.\<close>

fun chainLength :: "jsobj \<Rightarrow> nat" where
  "chainLength (JsObj None ps) = 0"
| "chainLength (JsObj (Some p) ps) = Suc (chainLength p)"

text \<open>A subscription whose \<open>unsubscribe\<close> has done its work: \<open>isSubscribed\<close> is false.\<close>

definition cancelled :: "world \<Rightarrow> nat \<Rightarrow> bool" where
  "cancelled w h = (h < length (subs w) \<and> \<not> snd (subs w ! h))"


text \<open>
  The registrations: \<open>subs\<close> holds the subscriptions in the order of the calls of
  \<open>subscribe\<close>. \<open>registered\<close> is the listeners of those still active, in that order,
  \<open>withdrawn\<close> the listeners of the cancelled ones.
\<close>

definition registered :: "world \<Rightarrow> nat list" where
  "registered w = map fst (filter snd (subs w))"

definition withdrawn :: "(nat \<times> bool) list \<Rightarrow> nat list" where
  "withdrawn ss = map fst (filter (\<lambda>s. \<not> snd s) ss)"

text \<open>
  The content of the next-list in terms of the registrations: all registered listeners in
  the order of registration, without the first entry of its listener for every cancelled
  subscription (lines 203-204 remove the first entry equal to the listener).
\<close>

definition listed :: "world \<Rightarrow> bool" where
  "listed w = (arrays w (nextListeners w) = fold remove1 (withdrawn (subs w)) (map fst (subs w)))"


section \<open>While the reducer runs\<close>

lemma dispatch_reducing:
  "isDispatching w \<Longrightarrow> dispatch n E w a = Some (r, w') \<Longrightarrow> w' = w \<and> (\<exists>e. r = Inl e)"
  by (cases n) (auto split: if_splits)

lemma subscribe_reducing:
  "isDispatching w \<Longrightarrow> subscribe w l = (r, w') \<Longrightarrow> w' = w \<and> (\<exists>e. r = Inl e)"
  by (auto simp: subscribe_def split: jsval.splits)

lemma unsubscribe_reducing:
  "isDispatching w \<Longrightarrow> unsubscribe w h = (r, w') \<Longrightarrow> w' = w"
  by (auto simp: unsubscribe_def Let_def split: if_splits)

lemma run_reducing:
  "isDispatching w \<Longrightarrow> run n E w p = Some (r, w') \<Longrightarrow> w' = w"
proof (induction n arbitrary: p r w')
  case 0
  then show ?case by simp
next
  case (Suc n)
  show ?case
  proof (cases p)
    case (Return v)
    with Suc.prems show ?thesis by simp
  next
    case (Throw v)
    with Suc.prems show ?thesis by simp
  next
    case (GetState k)
    with Suc.prems show ?thesis by (simp add: getState_def)
  next
    case (Subscribe l k)
    with Suc.prems show ?thesis
      by (auto split: prod.splits sum.splits dest: subscribe_reducing)
  next
    case (Unsubscribe h q)
    with Suc.prems Suc.IH show ?thesis
      by (auto split: prod.splits sum.splits dest: unsubscribe_reducing)
  next
    case (Dispatch a k)
    with Suc.prems show ?thesis
      by (auto split: option.splits prod.splits sum.splits dest: dispatch_reducing)
  next
    case (Try q k)
    from Suc.prems(2) Try obtain r1 w1 where
      q: "run n E w q = Some (r1, w1)" and k: "run n E w1 (k r1) = Some (r, w')"
      by (auto split: option.splits prod.splits)
    from Suc.IH [OF Suc.prems(1) q] have "w1 = w" .
    with k Suc.IH [OF Suc.prems(1)] show ?thesis by blast
  qed
qed

lemma dispatch_idle:
  assumes "\<not> isDispatching w" and "acceptable action"
  shows "dispatch (Suc n) E w action =
     (case run n E (w\<lparr>isDispatching := True\<rparr>) (E (currentReducer w) [currentState w, action]) of
        None \<Rightarrow> None
      | Some (Inl e, w1) \<Rightarrow> Some (Inl e, w)
      | Some (Inr s, w1) \<Rightarrow>
          (case notify n E (commit w s) (nextListeners w) 0 of
             None \<Rightarrow> None
           | Some (Inl e, w4) \<Rightarrow> Some (Inl e, w4)
           | Some (Inr v, w4) \<Rightarrow> Some (Inr action, w4)))"
proof -
  have idle: "w\<lparr>isDispatching := False\<rparr> = w"
    using assms(1) by simp
  have same: "w1 = w\<lparr>isDispatching := True\<rparr>"
    if "run n E (w\<lparr>isDispatching := True\<rparr>) p = Some (r, w1)" for p r w1
    using run_reducing [OF _ that] by simp
  show ?thesis
  proof (cases "run n E (w\<lparr>isDispatching := True\<rparr>) (E (currentReducer w) [currentState w, action])")
    case None
    with assms show ?thesis by (simp add: acceptable_def)
  next
    case (Some rw)
    obtain r w1 where rw: "rw = (r, w1)" by (cases rw)
    from same Some rw have w1: "w1 = w\<lparr>isDispatching := True\<rparr>" by blast
    show ?thesis
    proof (cases r)
      case (Inl e)
      with assms Some rw w1 idle show ?thesis by (simp add: acceptable_def)
    next
      case (Inr s)
      have eq: "w\<lparr>currentState := s, isDispatching := False, currentListeners := nextListeners w\<rparr>
            = w\<lparr>currentState := s, currentListeners := nextListeners w\<rparr>"
        using assms(1) by (cases w) simp
      from Inr assms Some rw w1 show ?thesis by (simp add: acceptable_def commit_def Let_def eq)
    qed
  qed
qed

lemma preserved:
  assumes refl: "\<And>w. R w w"
    and trans: "\<And>w1 w2 w3. R w1 w2 \<Longrightarrow> R w2 w3 \<Longrightarrow> R w1 w3"
    and sub: "\<And>w l r w'. subscribe w l = (r, w') \<Longrightarrow> R w w'"
    and unsub: "\<And>w h r w'. unsubscribe w h = (r, w') \<Longrightarrow> R w w'"
    and com: "\<And>w s. R w (commit w s)"
    and trace: "\<And>w l. R w (w\<lparr>notified := notified w @ [l]\<rparr>)"
  shows "(\<forall>w p r w'. run n E w p = Some (r, w') \<longrightarrow> R w w')
       \<and> (\<forall>w a r w'. dispatch n E w a = Some (r, w') \<longrightarrow> R w w')
       \<and> (\<forall>w b i r w'. notify n E w b i = Some (r, w') \<longrightarrow> R w w')"
proof (induction n)
  case 0
  show ?case by simp
next
  case (Suc n)
  then have runI: "\<And>w p r w'. run n E w p = Some (r, w') \<Longrightarrow> R w w'"
    and disI: "\<And>w a r w'. dispatch n E w a = Some (r, w') \<Longrightarrow> R w w'"
    and notI: "\<And>w b i r w'. notify n E w b i = Some (r, w') \<Longrightarrow> R w w'"
    by blast+
  have "R w w'" if "run (Suc n) E w p = Some (r, w')" for w p r w'
  proof (cases p)
    case (Return v)
    with that refl show ?thesis by simp
  next
    case (Throw v)
    with that refl show ?thesis by simp
  next
    case (GetState k)
    with that refl runI show ?thesis by (auto split: sum.splits)
  next
    case (Subscribe l k)
    with that show ?thesis
      by (auto split: prod.splits sum.splits intro: sub trans [OF sub runI])
  next
    case (Unsubscribe h q)
    with that show ?thesis
      by (auto split: prod.splits sum.splits intro: unsub trans [OF unsub runI])
  next
    case (Dispatch a k)
    with that show ?thesis
      by (auto split: option.splits prod.splits sum.splits intro: disI trans [OF disI runI])
  next
    case (Try q k)
    with that show ?thesis
      by (auto split: option.splits prod.splits intro: trans [OF runI runI])
  qed
  moreover
  have "R w w'" if d: "dispatch (Suc n) E w a = Some (r, w')" for w a r w'
  proof (cases "isDispatching w \<or> \<not> acceptable a")
    case True
    with d have "w' = w" by (auto simp: acceptable_def split: if_splits)
    with refl show ?thesis by simp
  next
    case False
    then have "\<not> isDispatching w" "acceptable a" by simp_all
    from d [unfolded dispatch_idle [OF this]] show ?thesis
      by (auto split: option.splits prod.splits sum.splits intro: refl notI trans [OF com notI])
  qed
  moreover
  have "R w w'" if "notify (Suc n) E w b i = Some (r, w')" for w b i r w'
    using that
    by (auto simp: Let_def split: if_splits option.splits prod.splits sum.splits
        intro: refl trans [OF trace runI] trans [OF trans [OF trace runI] notI])
  ultimately show ?case by blast
qed

lemma keeps_ensure: "keeps a w (ensureCanMutateNextListeners w)"
  by (auto simp: keeps_def frozen_def ensureCanMutateNextListeners_def)

lemma ensure_unaliased:
  "nextListeners w < nalloc w \<Longrightarrow>
   nextListeners (ensureCanMutateNextListeners w) \<noteq> currentListeners (ensureCanMutateNextListeners w)"
  by (auto simp: ensureCanMutateNextListeners_def)

lemma keeps_subscribe: "subscribe w l = (r, w') \<Longrightarrow> keeps a w w'"
  by (auto simp: subscribe_def keeps_def frozen_def ensureCanMutateNextListeners_def Let_def
      split: jsval.splits if_splits)

lemma keeps_unsubscribe: "unsubscribe w h = (r, w') \<Longrightarrow> keeps a w w'"
  by (auto simp: unsubscribe_def keeps_def frozen_def ensureCanMutateNextListeners_def Let_def
      split: if_splits)

lemma keeps_all:
  "(\<forall>w p r w'. run n E w p = Some (r, w') \<longrightarrow> keeps a w w')
 \<and> (\<forall>w x r w'. dispatch n E w x = Some (r, w') \<longrightarrow> keeps a w w')
 \<and> (\<forall>w b i r w'. notify n E w b i = Some (r, w') \<longrightarrow> keeps a w w')"
proof (rule preserved)
  show "keeps a w w" for w by (simp add: keeps_def)
  show "keeps a w1 w2 \<Longrightarrow> keeps a w2 w3 \<Longrightarrow> keeps a w1 w3" for w1 w2 w3
    by (simp add: keeps_def)
  show "subscribe w l = (r, w') \<Longrightarrow> keeps a w w'" for w l r w' by (rule keeps_subscribe)
  show "unsubscribe w h = (r, w') \<Longrightarrow> keeps a w w'" for w h r w' by (rule keeps_unsubscribe)
  show "keeps a w (commit w s)" for w s by (simp add: keeps_def frozen_def commit_def)
  show "keeps a w (w\<lparr>notified := notified w @ [l]\<rparr>)" for w l by (simp add: keeps_def frozen_def)
qed

lemma run_keeps: "run n E w p = Some (r, w') \<Longrightarrow> frozen w a \<Longrightarrow> frozen w' a \<and> arrays w' a = arrays w a"
  using keeps_all [of n E a] by (simp add: keeps_def)

lemma notify_callEach:
  "frozen w a \<Longrightarrow> notify n E w a i = callEach n E w (drop i (arrays w a))"
proof (induction n arbitrary: w i)
  case 0
  show ?case by simp
next
  case (Suc n)
  show ?case
  proof (cases "i < length (arrays w a)")
    case False
    then show ?thesis by simp
  next
    case True
    let ?l = "arrays w a ! i"
    let ?w = "w\<lparr>notified := notified w @ [?l]\<rparr>"
    have d: "drop i (arrays w a) = ?l # drop (Suc i) (arrays w a)"
      using True by (simp add: Cons_nth_drop_Suc)
    have fz: "frozen ?w a" and same: "arrays ?w a = arrays w a"
      using Suc.prems by (simp_all add: frozen_def)
    show ?thesis
    proof (cases "run n E ?w (E ?l [])")
      case None
      with True d show ?thesis by simp
    next
      case (Some rw)
      obtain r w' where rw: "rw = (r, w')" by (cases rw)
      from run_keeps [OF Some [unfolded rw] fz] same
      have fz': "frozen w' a" and same': "arrays w' a = arrays w a" by simp_all
      show ?thesis
      proof (cases r)
        case (Inl e)
        with True d Some rw show ?thesis by simp
      next
        case (Inr v)
        with True d Some rw Suc.IH [OF fz', of "Suc i"] same' show ?thesis by simp
      qed
    qed
  qed
qed

lemma dispatch_callEach:
  assumes "nextListeners w < nalloc w" and "\<not> isDispatching w" and "acceptable action"
    and "run n E (w\<lparr>isDispatching := True\<rparr>) (E (currentReducer w) [currentState w, action]) = Some (Inr s, w1)"
  shows "dispatch (Suc n) E w action =
     (case callEach n E (commit w s) (arrays w (nextListeners w)) of
        None \<Rightarrow> None
      | Some (Inl e, w') \<Rightarrow> Some (Inl e, w')
      | Some (Inr v, w') \<Rightarrow> Some (Inr action, w'))"
proof -
  have "frozen (commit w s) (nextListeners w)"
    using assms(1) by (simp add: frozen_def commit_def)
  from notify_callEach [OF this]
  have eq: "notify n E (commit w s) (nextListeners w) 0 = callEach n E (commit w s) (arrays w (nextListeners w))"
    by (simp add: commit_def)
  show ?thesis
    unfolding dispatch_idle [OF assms(2,3)] using assms(4) eq by simp
qed

lemma acceptable_typeOnly: "acceptable (typeOnly t)"
  by (simp add: acceptable_def isPlainObject_def typeOnly_def ObjectPrototype_def
      getPrototypeOf_def actionType_def)

section \<open>The listener arrays\<close>

lemma indexFrom_found:
  "x \<in> set xs \<Longrightarrow>
   \<exists>k < length xs. indexFrom i xs x = i + int k \<and> take k xs @ drop (Suc k) xs = remove1 x xs"
proof (induction xs arbitrary: i)
  case Nil
  then show ?case by simp
next
  case (Cons y ys)
  show ?case
  proof (cases "y = x")
    case True
    then show ?thesis by (intro exI [of _ 0]) simp
  next
    case False
    with Cons.prems have "x \<in> set ys" by simp
    from Cons.IH [OF this, of "i + 1"] obtain k where
      k: "k < length ys" "indexFrom (i + 1) ys x = i + 1 + int k"
         "take k ys @ drop (Suc k) ys = remove1 x ys" by blast
    with False show ?thesis by (intro exI [of _ "Suc k"]) simp
  qed
qed

lemma indexFrom_missing: "x \<notin> set xs \<Longrightarrow> indexFrom i xs x = -1"
  by (induction xs arbitrary: i) auto

lemma splice1_indexOf:
  "x \<in> set xs \<Longrightarrow> splice1 xs (indexOf xs x) = remove1 x xs"
proof -
  assume "x \<in> set xs"
  from indexFrom_found [OF this, of 0] obtain k where
    k: "k < length xs" "indexOf xs x = int k" "take k xs @ drop (Suc k) xs = remove1 x xs"
    by (auto simp: indexOf_def)
  then show ?thesis by (simp add: splice1_def Let_def min_def)
qed

lemma splice1_missing:
  "x \<notin> set xs \<Longrightarrow> splice1 xs (indexOf xs x) = butlast xs"
  by (cases xs rule: rev_cases) (auto simp: splice1_def indexOf_def indexFrom_missing Let_def max_def)

lemma active_update:
  "h < length ss \<Longrightarrow> snd (ss ! h) \<Longrightarrow>
   mset (map fst (filter snd (ss[h := (fst (ss ! h), False)]))) + {#fst (ss ! h)#}
   = mset (map fst (filter snd ss))"
proof (induction ss arbitrary: h)
  case Nil
  then show ?case by simp
next
  case (Cons s ss)
  then show ?case by (cases h) auto
qed

lemma inv_subscribe: "subscribe w l = (r, w') \<Longrightarrow> store_inv w \<Longrightarrow> store_inv w'"
  by (auto simp: subscribe_def store_inv_def ensureCanMutateNextListeners_def Let_def
      split: jsval.splits if_splits)

lemma ensure_next_array:
  "arrays (ensureCanMutateNextListeners w) (nextListeners (ensureCanMutateNextListeners w))
   = arrays w (nextListeners w)"
  by (simp add: ensureCanMutateNextListeners_def)

lemma ensure_bounds:
  "nextListeners w < nalloc w \<Longrightarrow> currentListeners w < nalloc w \<Longrightarrow>
   nextListeners (ensureCanMutateNextListeners w) < nalloc (ensureCanMutateNextListeners w)
   \<and> currentListeners (ensureCanMutateNextListeners w) < nalloc (ensureCanMutateNextListeners w)"
  by (simp add: ensureCanMutateNextListeners_def)

lemma ensure_subs: "subs (ensureCanMutateNextListeners w) = subs w"
  by (simp add: ensureCanMutateNextListeners_def)

lemma unsubscribe_active:
  assumes "h < length (subs w)" and "snd (subs w ! h)" and "\<not> isDispatching w"
  shows "unsubscribe w h =
     (let w2 = ensureCanMutateNextListeners (w\<lparr>subs := (subs w)[h := (fst (subs w ! h), False)]\<rparr>)
      in (Inr JUndefined,
          w2\<lparr>arrays := (arrays w2)(nextListeners w2 :=
                   splice1 (arrays w2 (nextListeners w2))
                     (indexOf (arrays w2 (nextListeners w2)) (fst (subs w ! h))))\<rparr>))"
  using assms by (simp add: unsubscribe_def Let_def)

lemma unsubscribe_other:
  assumes "\<not> (h < length (subs w) \<and> snd (subs w ! h) \<and> \<not> isDispatching w)"
  shows "snd (unsubscribe w h) = w"
  using assms by (auto simp: unsubscribe_def Let_def)

lemma inv_unsubscribe:
  assumes "unsubscribe w h = (r, w')" and "store_inv w"
  shows "store_inv w'"
proof (cases "h < length (subs w) \<and> snd (subs w ! h) \<and> \<not> isDispatching w")
  case False
  from unsubscribe_other [OF this] assms(1) have "w' = w" by simp
  with assms show ?thesis by simp
next
  case True
  let ?l = "fst (subs w ! h)"
  let ?xs = "arrays w (nextListeners w)"
  let ?w1 = "w\<lparr>subs := (subs w)[h := (?l, False)]\<rparr>"
  let ?w2 = "ensureCanMutateNextListeners ?w1"
  have m: "mset (map fst (filter snd ((subs w)[h := (?l, False)]))) + {#?l#} = mset ?xs"
    using active_update [of h "subs w"] True assms(2) by (simp add: store_inv_def)
  have "?l \<in># mset ?xs" unfolding m [symmetric] by simp
  then have mem: "?l \<in> set ?xs" by simp
  have r: "mset (remove1 ?l ?xs) = mset (map fst (filter snd ((subs w)[h := (?l, False)])))"
    by (simp add: m [symmetric])
  have xs: "arrays ?w2 (nextListeners ?w2) = ?xs"
    by (simp add: ensure_next_array)
  have b: "nextListeners ?w2 < nalloc ?w2 \<and> currentListeners ?w2 < nalloc ?w2"
    using assms(2) by (intro ensure_bounds) (simp_all add: store_inv_def)
  have w': "w' = ?w2\<lparr>arrays := (arrays ?w2)(nextListeners ?w2 := remove1 ?l ?xs)\<rparr>"
    using assms(1) True mem by (simp add: unsubscribe_active Let_def xs splice1_indexOf)
  show ?thesis
    unfolding store_inv_def w' using b r by (simp add: ensure_subs)
qed

lemma inv_all:
  "(\<forall>w p r w'. run n E w p = Some (r, w') \<longrightarrow> store_inv w \<longrightarrow> store_inv w')
 \<and> (\<forall>w x r w'. dispatch n E w x = Some (r, w') \<longrightarrow> store_inv w \<longrightarrow> store_inv w')
 \<and> (\<forall>w b i r w'. notify n E w b i = Some (r, w') \<longrightarrow> store_inv w \<longrightarrow> store_inv w')"
proof (rule preserved)
  show "store_inv w \<longrightarrow> store_inv w" for w by simp
  show "store_inv w1 \<longrightarrow> store_inv w2 \<Longrightarrow> store_inv w2 \<longrightarrow> store_inv w3 \<Longrightarrow> store_inv w1 \<longrightarrow> store_inv w3"
    for w1 w2 w3 by simp
  show "subscribe w l = (r, w') \<Longrightarrow> store_inv w \<longrightarrow> store_inv w'" for w l r w'
    by (simp add: inv_subscribe)
  show "unsubscribe w h = (r, w') \<Longrightarrow> store_inv w \<longrightarrow> store_inv w'" for w h r w'
    by (simp add: inv_unsubscribe)
  show "store_inv w \<longrightarrow> store_inv (commit w s)" for w s by (simp add: store_inv_def commit_def)
  show "store_inv w \<longrightarrow> store_inv (w\<lparr>notified := notified w @ [l]\<rparr>)" for w l
    by (simp add: store_inv_def)
qed

lemma inv_dispatch: "dispatch n E w x = Some (r, w') \<Longrightarrow> store_inv w \<Longrightarrow> store_inv w'"
  using inv_all [of n E] by blast

lemma inv_run: "run n E w p = Some (r, w') \<Longrightarrow> store_inv w \<Longrightarrow> store_inv w'"
  using inv_all [of n E] by blast

lemma subscribe_idle:
  assumes "store_inv w" and "\<not> isDispatching w"
  shows "\<exists>w'. subscribe w (JFun f) = (Inr (length (subs w)), w')
           \<and> nextListeners w' \<noteq> currentListeners w'
           \<and> (nextListeners w = currentListeners w \<longrightarrow> nextListeners w' = nalloc w)
           \<and> (nextListeners w \<noteq> currentListeners w \<longrightarrow> nextListeners w' = nextListeners w)
           \<and> currentListeners w' = currentListeners w
           \<and> arrays w' (currentListeners w') = arrays w (currentListeners w)
           \<and> arrays w' (nextListeners w') = arrays w (nextListeners w) @ [f]
           \<and> subs w' = subs w @ [(f, True)]"
  using assms
  by (auto simp: subscribe_def store_inv_def ensureCanMutateNextListeners_def Let_def)

lemma unsubscribe_idle:
  assumes "store_inv w" and "\<not> isDispatching w" and "h < length (subs w)" and "subs w ! h = (l, True)"
  shows "\<exists>w'. unsubscribe w h = (Inr JUndefined, w')
           \<and> nextListeners w' \<noteq> currentListeners w'
           \<and> (nextListeners w = currentListeners w \<longrightarrow> nextListeners w' = nalloc w)
           \<and> (nextListeners w \<noteq> currentListeners w \<longrightarrow> nextListeners w' = nextListeners w)
           \<and> currentListeners w' = currentListeners w
           \<and> arrays w' (currentListeners w') = arrays w (currentListeners w)
           \<and> l \<in> set (arrays w (nextListeners w))
           \<and> arrays w' (nextListeners w') = remove1 l (arrays w (nextListeners w))
           \<and> subs w' = (subs w)[h := (l, False)]"
proof -
  let ?xs = "arrays w (nextListeners w)"
  let ?w1 = "w\<lparr>subs := (subs w)[h := (l, False)]\<rparr>"
  let ?w2 = "ensureCanMutateNextListeners ?w1"
  have m: "mset (map fst (filter snd ((subs w)[h := (l, False)]))) + {#l#} = mset ?xs"
    using active_update [of h "subs w"] assms by (simp add: store_inv_def)
  have "l \<in># mset ?xs" unfolding m [symmetric] by simp
  then have mem: "l \<in> set ?xs" by simp
  have xs: "arrays ?w2 (nextListeners ?w2) = ?xs"
    by (simp add: ensure_next_array)
  have u: "unsubscribe w h = (Inr JUndefined, ?w2\<lparr>arrays := (arrays ?w2)(nextListeners ?w2 := remove1 l ?xs)\<rparr>)"
    using assms mem by (simp add: unsubscribe_active Let_def xs splice1_indexOf)
  show ?thesis
    unfolding u using assms(1) mem
    by (auto simp: store_inv_def ensureCanMutateNextListeners_def)
qed

section \<open>Construction\<close>

lemma typeof_undefined: "typeof v = ''undefined'' \<longleftrightarrow> v = JUndefined"
  by (cases v) simp_all

lemma typeof_function: "typeof v = ''function'' \<longleftrightarrow> (\<exists>f. v = JFun f)"
  by (cases v) simp_all

lemma createStore_plain:
  assumes "typeof enhancer = ''undefined''" and "typeof preloadedState \<noteq> ''function''"
  shows "createStore n E T (JFun r) preloadedState enhancer arg3 =
     (case dispatch n E (initial r preloadedState) (typeOnly (INIT T)) of
        None \<Rightarrow> None
      | Some (Inl e, w) \<Rightarrow> Some (Inl e)
      | Some (Inr v, w) \<Rightarrow> Some (Inr (Store w)))"
  using assms by (simp add: createStore_def)

lemma inv_initial: "store_inv (initial r s)"
  by (simp add: store_inv_def initial_def)

lemma createStore_Store:
  assumes "createStore n E T reducer s0 enh a3 = Some (Inr (Store w))"
  shows "\<exists>r s v. dispatch n E (initial r s) (typeOnly (INIT T)) = Some (Inr v, w)"
proof -
  from assms obtain r s where
    "(case dispatch n E (initial r s) (typeOnly (INIT T)) of
        None \<Rightarrow> None
      | Some (Inl e, w) \<Rightarrow> Some (Inl e)
      | Some (Inr v, w) \<Rightarrow> Some (Inr (Store w))) = Some (Inr (Store w))"
    unfolding createStore_def Let_def
    by (auto split: if_splits jsval.splits)
  then show ?thesis
    by (auto split: option.splits prod.splits sum.splits)
qed

lemma inv_createStore:
  "createStore n E T reducer s0 enh a3 = Some (Inr (Store w)) \<Longrightarrow> store_inv w"
  using createStore_Store inv_dispatch inv_initial by blast

subsection \<open>The order of the next-list\<close>

lemma fold_remove1_mset: "mset (fold remove1 cs xs) = mset xs - mset cs"
  by (induction cs arbitrary: xs) simp_all

lemma fold_remove1_append:
  "mset cs \<subseteq># mset xs \<Longrightarrow> fold remove1 cs (xs @ ys) = fold remove1 cs xs @ ys"
proof (induction cs arbitrary: xs)
  case Nil
  show ?case by simp
next
  case (Cons c cs)
  from Cons.prems have c: "c \<in> set xs"
    by (metis insert_subset_eq_iff mset.simps(2) set_mset_mset)
  from Cons.prems have "mset cs \<subseteq># mset (remove1 c xs)"
    by (simp add: insert_subset_eq_iff)
  from Cons.IH [OF this] c show ?case by (simp add: remove1_append)
qed

lemma fold_remove1_perm: "mset cs = mset ds \<Longrightarrow> fold remove1 cs = fold remove1 ds"
  by (rule fold_multiset_equiv) (auto simp: fun_eq_iff remove1_commute)

lemma withdrawn_sub: "mset (withdrawn ss) \<subseteq># mset (map fst ss)"
  by (simp add: withdrawn_def image_mset_subseteq_mono)

lemma split_subs:
  "mset (map fst ss) = mset (map fst (filter snd ss)) + mset (withdrawn ss)"
  by (induction ss) (auto simp: withdrawn_def)

lemma withdrawn_update:
  "h < length ss \<Longrightarrow> snd (ss ! h) \<Longrightarrow>
   mset (withdrawn (ss[h := (fst (ss ! h), False)])) = mset (withdrawn ss) + {#fst (ss ! h)#}"
proof (induction ss arbitrary: h)
  case Nil
  then show ?case by simp
next
  case (Cons s ss)
  then show ?case by (cases h) (auto simp: withdrawn_def)
qed

lemma listed_mset:
  assumes "listed w"
  shows "mset (arrays w (nextListeners w)) = mset (registered w)"
proof -
  have "mset (arrays w (nextListeners w)) = mset (map fst (subs w)) - mset (withdrawn (subs w))"
    using assms unfolding listed_def by (simp only: fold_remove1_mset)
  also have "\<dots> = mset (map fst (filter snd (subs w)))"
    unfolding split_subs [of "subs w"] by simp
  finally show ?thesis by (simp add: registered_def)
qed



lemma listed_subscribe: "subscribe w l = (r, w') \<Longrightarrow> listed w \<Longrightarrow> listed w'"
proof (cases "\<exists>f. l = JFun f \<and> \<not> isDispatching w")
  case False
  assume "subscribe w l = (r, w')" "listed w"
  with False show ?thesis by (auto simp: subscribe_def split: jsval.splits if_splits)
next
  case True
  assume s: "subscribe w l = (r, w')" and i: "listed w"
  from True obtain f where f: "l = JFun f" "\<not> isDispatching w" by blast
  let ?w1 = "w\<lparr>subs := subs w @ [(f, True)]\<rparr>"
  let ?w2 = "ensureCanMutateNextListeners ?w1"
  have w': "w' = ?w2\<lparr>arrays := (arrays ?w2)(nextListeners ?w2 := arrays ?w2 (nextListeners ?w2) @ [f])\<rparr>"
    using s f by (simp add: subscribe_def Let_def)
  have xs: "arrays ?w2 (nextListeners ?w2) = arrays w (nextListeners w)"
    by (simp add: ensure_next_array)
  have "fold remove1 (withdrawn (subs w)) (map fst (subs w) @ [f])
        = fold remove1 (withdrawn (subs w)) (map fst (subs w)) @ [f]"
    by (rule fold_remove1_append) (rule withdrawn_sub)
  with i show ?thesis
    unfolding w' listed_def by (simp add: xs ensure_subs withdrawn_def)
qed

lemma listed_unsubscribe:
  assumes "unsubscribe w h = (r, w')" and "listed w"
  shows "listed w'"
proof (cases "h < length (subs w) \<and> snd (subs w ! h) \<and> \<not> isDispatching w")
  case False
  from unsubscribe_other [OF this] assms(1) have "w' = w" by simp
  with assms show ?thesis by simp
next
  case True
  let ?l = "fst (subs w ! h)"
  let ?xs = "arrays w (nextListeners w)"
  let ?ss = "(subs w)[h := (?l, False)]"
  let ?w1 = "w\<lparr>subs := ?ss\<rparr>"
  let ?w2 = "ensureCanMutateNextListeners ?w1"
  have "?l \<in> set (registered w)"
    using True by (force simp: registered_def in_set_conv_nth)
  then have "?l \<in># mset ?xs" unfolding listed_mset [OF assms(2)] by simp
  then have mem: "?l \<in> set ?xs" by simp
  have xs: "arrays ?w2 (nextListeners ?w2) = ?xs"
    by (simp add: ensure_next_array)
  have w': "w' = ?w2\<lparr>arrays := (arrays ?w2)(nextListeners ?w2 := remove1 ?l ?xs)\<rparr>"
    using assms(1) True mem by (simp add: unsubscribe_active Let_def xs splice1_indexOf)
  have "mset (withdrawn ?ss) = mset (withdrawn (subs w) @ [?l])"
    using withdrawn_update [of h "subs w"] True by simp
  then have "fold remove1 (withdrawn ?ss) = fold remove1 (withdrawn (subs w) @ [?l])"
    by (rule fold_remove1_perm)
  moreover have "map fst ?ss = map fst (subs w)"
    using True by (simp add: map_update list_update_same_conv)
  ultimately have "fold remove1 (withdrawn ?ss) (map fst ?ss) = remove1 ?l ?xs"
    using assms(2) by (simp add: listed_def)
  then show ?thesis
    unfolding w' listed_def by (simp add: ensure_subs)
qed

lemma listed_all:
  "(\<forall>w p r w'. run n E w p = Some (r, w') \<longrightarrow> listed w \<longrightarrow> listed w')
 \<and> (\<forall>w x r w'. dispatch n E w x = Some (r, w') \<longrightarrow> listed w \<longrightarrow> listed w')
 \<and> (\<forall>w b i r w'. notify n E w b i = Some (r, w') \<longrightarrow> listed w \<longrightarrow> listed w')"
proof (rule preserved)
  show "listed w \<longrightarrow> listed w" for w by simp
  show "listed w1 \<longrightarrow> listed w2 \<Longrightarrow> listed w2 \<longrightarrow> listed w3 \<Longrightarrow> listed w1 \<longrightarrow> listed w3"
    for w1 w2 w3 by simp
  show "subscribe w l = (r, w') \<Longrightarrow> listed w \<longrightarrow> listed w'" for w l r w'
    by (simp add: listed_subscribe)
  show "unsubscribe w h = (r, w') \<Longrightarrow> listed w \<longrightarrow> listed w'" for w h r w'
    by (simp add: listed_unsubscribe)
  show "listed w \<longrightarrow> listed (commit w s)" for w s by (simp add: listed_def commit_def)
  show "listed w \<longrightarrow> listed (w\<lparr>notified := notified w @ [l]\<rparr>)" for w l
    by (simp add: listed_def)
qed

lemma listed_dispatch: "dispatch n E w x = Some (r, w') \<Longrightarrow> listed w \<Longrightarrow> listed w'"
  using listed_all [of n E] by blast

lemma listed_run: "run n E w p = Some (r, w') \<Longrightarrow> listed w \<Longrightarrow> listed w'"
  using listed_all [of n E] by blast

lemma listed_initial: "listed (initial r s)"
  by (simp add: listed_def initial_def withdrawn_def)

lemma listed_createStore:
  "createStore n E T reducer s0 enh a3 = Some (Inr (Store w)) \<Longrightarrow> listed w"
  using createStore_Store listed_dispatch listed_initial by blast

text \<open>
  Claim C7. Creating a store without an enhancer, from a reducer \<open>r\<close> (a function) and a
  preloaded state that is not a function (a function in second place with no third argument
  is taken as the enhancer): when \<open>r\<close>, called with the preloaded state and the action
  \<open>{type: INIT}\<close>, returns \<open>s\<close>, the constructor returns a store; that store is the
  result of one dispatch of the INIT action on the new variables; its \<open>getState()\<close>
  gives \<open>s\<close>, both listener arrays are empty, no subscription exists, no listener was
  called and the dispatch flag is false. The preloaded state may be \<open>undefined\<close>.
\<close>

theorem createStore_init:
  assumes "typeof enhancer = ''undefined''" and "typeof preloadedState \<noteq> ''function''"
    and "run n E ((initial r preloadedState)\<lparr>isDispatching := True\<rparr>)
           (E r [preloadedState, typeOnly (INIT T)]) = Some (Inr s, w1)"
  shows "\<exists>w. createStore (Suc n) E T (JFun r) preloadedState enhancer arg3 = Some (Inr (Store w))
           \<and> dispatch (Suc n) E (initial r preloadedState) (typeOnly (INIT T))
               = Some (Inr (typeOnly (INIT T)), w)
           \<and> w = (initial r preloadedState)\<lparr>currentState := s\<rparr>
           \<and> getState w = Inr s
           \<and> arrays w (nextListeners w) = [] \<and> arrays w (currentListeners w) = []
           \<and> subs w = [] \<and> notified w = []
           \<and> \<not> isDispatching w"
proof -
  let ?w = "initial r preloadedState"
  have n: "n \<noteq> 0" using assms(3) by (cases n) simp_all
  then obtain m where m: "n = Suc m" by (cases n) simp_all
  have 1: "nextListeners ?w < nalloc ?w" and 2: "\<not> isDispatching ?w"
    and 3: "currentReducer ?w = r" "currentState ?w = preloadedState"
    by (simp_all add: initial_def)
  have c: "commit ?w s = ?w\<lparr>currentState := s\<rparr>"
    by (simp add: commit_def initial_def)
  have "callEach n E (commit ?w s) (arrays ?w (nextListeners ?w)) = Some (Inr JUndefined, commit ?w s)"
    unfolding m by (simp add: initial_def)
  with dispatch_callEach [OF 1 2 acceptable_typeOnly, of n E "INIT T" s w1] assms(3)
  have d: "dispatch (Suc n) E ?w (typeOnly (INIT T)) = Some (Inr (typeOnly (INIT T)), ?w\<lparr>currentState := s\<rparr>)"
    by (simp add: 3 c)
  show ?thesis
    unfolding createStore_plain [OF assms(1,2)] d
    by (simp add: getState_def initial_def)
qed

theorem createStore_init_witness:
  "(\<exists>w. createStore 2 (\<lambda>f args. Return (JNum 5)) (ActionTypes ''a.b'' ''c.d'')
            (JFun 0) JUndefined JUndefined JUndefined = Some (Inr (Store w))
        \<and> getState w = Inr (JNum 5) \<and> arrays w (nextListeners w) = [] \<and> \<not> isDispatching w)"
proof -
  let ?E = "\<lambda>(f::nat) (args::jsval list). Return (JNum 5)"
  let ?T = "ActionTypes ''a.b'' ''c.d''"
  have 1: "typeof JUndefined = ''undefined''" and 2: "typeof JUndefined \<noteq> ''function''"
    by simp_all
  have 3: "run 1 ?E ((initial 0 JUndefined)\<lparr>isDispatching := True\<rparr>)
             (?E 0 [JUndefined, typeOnly (INIT ?T)])
           = Some (Inr (JNum 5), (initial 0 JUndefined)\<lparr>isDispatching := True\<rparr>)"
    by simp
  from createStore_init [OF 1 2 3, where ?arg3.0 = JUndefined] show ?thesis
    by (auto simp add: numeral_2_eq_2 simp del: dispatch.simps)
qed

section \<open>A reducer that raises\<close>

text \<open>
  Claim C3. A dispatch that reaches the reducer (the store is idle and the action passes the
  shape checks) and whose reducer raises an error \<open>e\<close>: the call of \<open>dispatch\<close> ends with
  that same error; while the reducer ran the flag was set, afterwards it is false again;
  the stored state is the one from before the call, and so is every other variable of
  the store. Later operations are not refused: \<open>getState\<close> returns the old state and
  \<open>subscribe\<close> registers a listener.
\<close>

theorem reducer_failure_atomic:
  assumes "\<not> isDispatching w" and "acceptable action"
    and "run n E (w\<lparr>isDispatching := True\<rparr>) (E (currentReducer w) [currentState w, action])
         = Some (Inl e, w1)"
  shows "\<exists>w'. dispatch (Suc n) E w action = Some (Inl e, w')
            \<and> isDispatching w1 \<and> \<not> isDispatching w'
            \<and> currentState w' = currentState w
            \<and> w' = w
            \<and> getState w' = Inr (currentState w)
            \<and> fst (subscribe w' (JFun f)) = Inr (length (subs w))"
proof -
  have "w1 = w\<lparr>isDispatching := True\<rparr>"
    using run_reducing [OF _ assms(3)] by simp
  moreover have "dispatch (Suc n) E w action = Some (Inl e, w)"
    unfolding dispatch_idle [OF assms(1,2)] using assms(3) by simp
  ultimately show ?thesis
    using assms(1) by (simp add: getState_def subscribe_def Let_def)
qed

theorem reducer_failure_atomic_witness:
  "\<exists>w'. dispatch 2 (\<lambda>f args. Throw (JStr ''boom''))
           \<lparr>currentReducer = 0, currentState = JNum 5, currentListeners = 0, nextListeners = 0,
            isDispatching = False, arrays = (\<lambda>a. []), nalloc = 1, subs = [], notified = []\<rparr>
           (typeOnly ''INC'') = Some (Inl (Thrown (JStr ''boom'')), w')
       \<and> \<not> isDispatching w' \<and> getState w' = Inr (JNum 5)"
proof -
  let ?E = "\<lambda>(f::nat) (args::jsval list). Throw (JStr ''boom'')"
  let ?w = "\<lparr>currentReducer = 0, currentState = JNum 5, currentListeners = 0, nextListeners = 0,
            isDispatching = False, arrays = (\<lambda>a. []), nalloc = 1, subs = [], notified = []\<rparr>"
  have 1: "\<not> isDispatching ?w" by simp
  have 2: "acceptable (typeOnly ''INC'')" by (rule acceptable_typeOnly)
  have 3: "run 1 ?E (?w\<lparr>isDispatching := True\<rparr>)
             (?E (currentReducer ?w) [currentState ?w, typeOnly ''INC''])
           = Some (Inl (Thrown (JStr ''boom'')), ?w\<lparr>isDispatching := True\<rparr>)"
    by simp
  from reducer_failure_atomic [OF 1 2 3] show ?thesis
    by (auto simp add: numeral_2_eq_2 simp del: dispatch.simps)
qed

text \<open>
  Claim C10. In a dispatch whose reducer raises, no listener is called: the trace of
  listener calls is the one from before the dispatch, although listeners are registered;
  and \<open>currentListeners\<close> is not assigned, it keeps its old reference also where
  \<open>nextListeners\<close> holds another one.
\<close>

theorem reducer_failure_silent:
  assumes "\<not> isDispatching w" and "acceptable action"
    and "run n E (w\<lparr>isDispatching := True\<rparr>) (E (currentReducer w) [currentState w, action])
         = Some (Inl e, w1)"
  shows "\<exists>w'. dispatch (Suc n) E w action = Some (Inl e, w')
            \<and> notified w' = notified w
            \<and> currentListeners w' = currentListeners w
            \<and> nextListeners w' = nextListeners w
            \<and> arrays w' = arrays w"
  unfolding dispatch_idle [OF assms(1,2)] using assms(3) by simp

theorem reducer_failure_silent_witness:
  "\<exists>w'. dispatch 2 (\<lambda>f args. if f = 0 then Throw (JStr ''boom'') else Return JUndefined)
           \<lparr>currentReducer = 0, currentState = JNum 5, currentListeners = 0, nextListeners = 1,
            isDispatching = False, arrays = (\<lambda>a. if a = 1 then [7] else []), nalloc = 2,
            subs = [(7, True)], notified = []\<rparr>
           (typeOnly ''INC'') = Some (Inl (Thrown (JStr ''boom'')), w')
       \<and> notified w' = [] \<and> currentListeners w' = 0 \<and> arrays w' (nextListeners w') = [7]"
proof -
  let ?E = "\<lambda>(f::nat) (args::jsval list). if f = 0 then Throw (JStr ''boom'') else Return JUndefined"
  let ?w = "\<lparr>currentReducer = 0, currentState = JNum 5, currentListeners = 0, nextListeners = 1,
            isDispatching = False, arrays = (\<lambda>a. if a = 1 then [7] else []), nalloc = 2,
            subs = [(7, True)], notified = []\<rparr>"
  have 1: "\<not> isDispatching ?w" by simp
  have 2: "acceptable (typeOnly ''INC'')" by (rule acceptable_typeOnly)
  have 3: "run 1 ?E (?w\<lparr>isDispatching := True\<rparr>)
             (?E (currentReducer ?w) [currentState ?w, typeOnly ''INC''])
           = Some (Inl (Thrown (JStr ''boom'')), ?w\<lparr>isDispatching := True\<rparr>)"
    by simp
  from reducer_failure_silent [OF 1 2 3] show ?thesis
    by (auto simp add: numeral_2_eq_2 simp del: dispatch.simps)
qed

section \<open>A dispatch that succeeds\<close>


















section \<open>Subscribing and unsubscribing during a notification pass\<close>

text \<open>
  Claim C2. Let \<open>a\<close> be the array a notification pass iterates; it is frozen from the
  moment \<open>dispatch\<close> takes it as the snapshot (last part below). Then
  \<^item> the pass, which reads length and elements from the array at every round, calls exactly
    the listeners the array held when the pass began (or resumed at index \<open>i\<close>), in order;
  \<^item> whatever a callback does to the store, the array \<open>a\<close> holds the same listeners
    afterwards and stays frozen;
  \<^item> \<open>subscribe\<close> and the first call of an \<open>unsubscribe\<close> leave \<open>a\<close> alone: when the two
    references alias they first move \<open>nextListeners\<close> to a new copy, and then write to
    the array of \<open>nextListeners\<close>, which is never \<open>a\<close>; the next-list gains the listener at
    its end, or loses its first entry equal to the listener;
  \<^item> the next dispatch takes the array of \<open>nextListeners\<close>, with these edits, as its snapshot.
\<close>

theorem listener_snapshot:
  assumes "store_inv w" and "frozen w a"
  shows "notify n E w a i = callEach n E w (drop i (arrays w a))
       \<and> (\<forall>p r w'. run n E w p = Some (r, w') \<longrightarrow>
             arrays w' a = arrays w a \<and> frozen w' a \<and> store_inv w')
       \<and> (\<forall>f. \<not> isDispatching w \<longrightarrow>
             (\<exists>w'. subscribe w (JFun f) = (Inr (length (subs w)), w')
                \<and> arrays w' a = arrays w a \<and> frozen w' a \<and> nextListeners w' \<noteq> a
                \<and> (nextListeners w = currentListeners w \<longrightarrow> nextListeners w' = nalloc w)
                \<and> arrays w' (nextListeners w') = arrays w (nextListeners w) @ [f]))
       \<and> (\<forall>h l. \<not> isDispatching w \<and> h < length (subs w) \<and> subs w ! h = (l, True) \<longrightarrow>
             (\<exists>w'. unsubscribe w h = (Inr JUndefined, w')
                \<and> arrays w' a = arrays w a \<and> frozen w' a \<and> nextListeners w' \<noteq> a
                \<and> (nextListeners w = currentListeners w \<longrightarrow> nextListeners w' = nalloc w)
                \<and> arrays w' (nextListeners w') = remove1 l (arrays w (nextListeners w))))
       \<and> (\<forall>action s w1.
             \<not> isDispatching w \<and> acceptable action
             \<and> run n E (w\<lparr>isDispatching := True\<rparr>) (E (currentReducer w) [currentState w, action])
                 = Some (Inr s, w1) \<longrightarrow>
             frozen (w\<lparr>currentState := s, currentListeners := nextListeners w\<rparr>) (nextListeners w)
             \<and> dispatch (Suc n) E w action =
                 (case callEach n E (w\<lparr>currentState := s, currentListeners := nextListeners w\<rparr>)
                         (arrays w (nextListeners w)) of
                    None \<Rightarrow> None
                  | Some (Inl e, w') \<Rightarrow> Some (Inl e, w')
                  | Some (Inr v, w') \<Rightarrow> Some (Inr action, w')))"
proof (intro conjI allI impI)
  show "notify n E w a i = callEach n E w (drop i (arrays w a))"
    using assms(2) by (rule notify_callEach)
next
  fix p r w' assume "run n E w p = Some (r, w')"
  with run_keeps [OF this assms(2)] inv_run [OF this assms(1)]
  show "arrays w' a = arrays w a" "frozen w' a" "store_inv w'" by simp_all
next
  fix f assume idle: "\<not> isDispatching w"
  from subscribe_idle [OF assms(1) idle, of f] obtain w' where
    s: "subscribe w (JFun f) = (Inr (length (subs w)), w')"
    and u: "nextListeners w' \<noteq> currentListeners w'"
    and c: "nextListeners w = currentListeners w \<longrightarrow> nextListeners w' = nalloc w"
    and x: "arrays w' (nextListeners w') = arrays w (nextListeners w) @ [f]"
    by blast
  from keeps_subscribe [OF s, of a] assms(2)
  have k: "frozen w' a" "arrays w' a = arrays w a" by (simp_all add: keeps_def)
  with u have "nextListeners w' \<noteq> a" by (auto simp: frozen_def)
  with s k c x
  show "\<exists>w'. subscribe w (JFun f) = (Inr (length (subs w)), w')
                \<and> arrays w' a = arrays w a \<and> frozen w' a \<and> nextListeners w' \<noteq> a
                \<and> (nextListeners w = currentListeners w \<longrightarrow> nextListeners w' = nalloc w)
                \<and> arrays w' (nextListeners w') = arrays w (nextListeners w) @ [f]"
    by blast
next
  fix h l assume "\<not> isDispatching w \<and> h < length (subs w) \<and> subs w ! h = (l, True)"
  then have idle: "\<not> isDispatching w" and h: "h < length (subs w)" "subs w ! h = (l, True)"
    by simp_all
  from unsubscribe_idle [OF assms(1) idle h] obtain w' where
    s: "unsubscribe w h = (Inr JUndefined, w')"
    and u: "nextListeners w' \<noteq> currentListeners w'"
    and c: "nextListeners w = currentListeners w \<longrightarrow> nextListeners w' = nalloc w"
    and x: "arrays w' (nextListeners w') = remove1 l (arrays w (nextListeners w))"
    by blast
  from keeps_unsubscribe [OF s, of a] assms(2)
  have k: "frozen w' a" "arrays w' a = arrays w a" by (simp_all add: keeps_def)
  with u have "nextListeners w' \<noteq> a" by (auto simp: frozen_def)
  with s k c x
  show "\<exists>w'. unsubscribe w h = (Inr JUndefined, w')
                \<and> arrays w' a = arrays w a \<and> frozen w' a \<and> nextListeners w' \<noteq> a
                \<and> (nextListeners w = currentListeners w \<longrightarrow> nextListeners w' = nalloc w)
                \<and> arrays w' (nextListeners w') = remove1 l (arrays w (nextListeners w))"
    by blast
next
  fix action s w1
  assume "\<not> isDispatching w \<and> acceptable action
             \<and> run n E (w\<lparr>isDispatching := True\<rparr>) (E (currentReducer w) [currentState w, action])
                 = Some (Inr s, w1)"
  then have *: "\<not> isDispatching w" "acceptable action"
    "run n E (w\<lparr>isDispatching := True\<rparr>) (E (currentReducer w) [currentState w, action]) = Some (Inr s, w1)"
    by simp_all
  have b: "nextListeners w < nalloc w" using assms(1) by (simp add: store_inv_def)
  then show "frozen (w\<lparr>currentState := s, currentListeners := nextListeners w\<rparr>) (nextListeners w)"
    by (simp add: frozen_def)
  from dispatch_callEach [OF b *]
  show "dispatch (Suc n) E w action =
                 (case callEach n E (w\<lparr>currentState := s, currentListeners := nextListeners w\<rparr>)
                         (arrays w (nextListeners w)) of
                    None \<Rightarrow> None
                  | Some (Inl e, w') \<Rightarrow> Some (Inl e, w')
                  | Some (Inr v, w') \<Rightarrow> Some (Inr action, w'))"
    by (simp add: commit_def)
qed

theorem listener_snapshot_witness:
  "\<exists>w'. notify 5
          (\<lambda>f args. if f = 1 then Subscribe (JFun 2) (\<lambda>h. Unsubscribe 1 (Return JUndefined))
                     else Return JUndefined)
          \<lparr>currentReducer = 0, currentState = JNum 0, currentListeners = 0, nextListeners = 0,
           isDispatching = False, arrays = (\<lambda>a. [])(0 := [1, 3]), nalloc = 1,
           subs = [(1, True), (3, True)], notified = []\<rparr> 0 0 = Some (Inr JUndefined, w')
      \<and> notified w' = [1, 3] \<and> arrays w' 0 = [1, 3] \<and> currentListeners w' = 0
      \<and> arrays w' (nextListeners w') = [1, 2]
      \<and> (case dispatch 7
                 (\<lambda>f args. if f = 1 then Subscribe (JFun 2) (\<lambda>h. Unsubscribe 1 (Return JUndefined))
                            else Return JUndefined) w' (typeOnly ''NEXT'') of
             Some (Inr v, w'') \<Rightarrow> notified w''
           | _ \<Rightarrow> []) = [1, 3, 1, 2]"
proof -
  let ?E = "\<lambda>(f::nat) (args::jsval list).
              if f = 1 then Subscribe (JFun 2) (\<lambda>h. Unsubscribe 1 (Return JUndefined))
              else Return JUndefined"
  let ?w = "\<lparr>currentReducer = 0, currentState = JNum 0, currentListeners = 0, nextListeners = 0,
           isDispatching = False, arrays = (\<lambda>a. [])(0 := [1, 3]), nalloc = 1,
           subs = [(1, True), (3, True)], notified = []\<rparr>"
  have 1: "store_inv ?w" by (simp add: store_inv_def)
  have 2: "frozen ?w 0" by (simp add: frozen_def)
  let ?w' = "\<lparr>currentReducer = 0, currentState = JNum 0, currentListeners = 0, nextListeners = 1,
           isDispatching = False, arrays = (\<lambda>a. [])(0 := [1, 3], 1 := [1, 2]), nalloc = 2,
           subs = [(1, True), (3, False), (2, True)], notified = [1, 3]\<rparr>"
  from listener_snapshot [OF 1 2, of 5 ?E 0]
  have "notify 5 ?E ?w 0 0 = callEach 5 ?E ?w [1, 3]" by simp
  then have n: "notify 5 ?E ?w 0 0 = Some (Inr JUndefined, ?w')"
    by (simp add: eval_nat_numeral subscribe_def unsubscribe_def ensureCanMutateNextListeners_def
        indexOf_def splice1_def Let_def del: notify.simps)
  show ?thesis
    unfolding n
    by (simp add: eval_nat_numeral subscribe_def unsubscribe_def ensureCanMutateNextListeners_def
        indexOf_def splice1_def Let_def isPlainObject_def typeOnly_def ObjectPrototype_def
        getPrototypeOf_def actionType_def)
qed

section \<open>The shape of an action\<close>

lemma chainTop_root: "chainLength (chainTop ob) = 0"
  by (induction ob rule: chainTop.induct) simp_all

lemma chainTop_self: "chainLength ob = 0 \<Longrightarrow> chainTop ob = ob"
  by (induction ob rule: chainTop.induct) simp_all

lemma isPlainObject_chain:
  "isPlainObject v \<longleftrightarrow> (\<exists>ob. v = JObj ob \<and> chainLength ob = 1)"
proof (cases v)
  case (JObj ob)
  obtain p ps where ob: "ob = JsObj p ps" by (cases ob)
  show ?thesis
  proof (cases p)
    case None
    with JObj ob show ?thesis by (simp add: isPlainObject_def getPrototypeOf_def)
  next
    case (Some q)
    have "q = chainTop q \<longleftrightarrow> chainLength q = 0"
      using chainTop_root [of q] chainTop_self [of q] by auto
    with JObj ob Some show ?thesis by (simp add: isPlainObject_def getPrototypeOf_def)
  qed
qed (simp_all add: isPlainObject_def)

text \<open>
  Claim C8. \<open>dispatch\<close> of a value that is not a plain object, or of a plain object whose
  \<open>type\<close> is \<open>undefined\<close>, ends with an error and leaves every variable of the store as
  it was: the state is unchanged and no listener is called. A plain object with a
  defined \<open>type\<close> passes both checks: the call is refused only when a reducer is running,
  and otherwise goes on to call the reducer. The plain-object test accepts exactly the
  objects whose prototype chain has one link.
\<close>

theorem action_shape_validation:
  "(\<not> isPlainObject action \<longrightarrow>
      dispatch (Suc n) E w action = Some (Inl ActionNotPlainObject, w))
 \<and> (isPlainObject action \<and> actionType action = JUndefined \<longrightarrow>
      dispatch (Suc n) E w action = Some (Inl ActionTypeUndefined, w))
 \<and> (isPlainObject action \<and> actionType action \<noteq> JUndefined \<and> isDispatching w \<longrightarrow>
      dispatch (Suc n) E w action = Some (Inl ReducersMayNotDispatch, w))
 \<and> (isPlainObject action \<and> actionType action \<noteq> JUndefined \<and> \<not> isDispatching w \<longrightarrow>
      dispatch (Suc n) E w action =
        (case run n E (w\<lparr>isDispatching := True\<rparr>) (E (currentReducer w) [currentState w, action]) of
           None \<Rightarrow> None
         | Some (Inl e, w1) \<Rightarrow> Some (Inl e, w)
         | Some (Inr s, w1) \<Rightarrow>
             (case notify n E (w\<lparr>currentState := s, currentListeners := nextListeners w\<rparr>)
                     (nextListeners w) 0 of
                None \<Rightarrow> None
              | Some (Inl e, w4) \<Rightarrow> Some (Inl e, w4)
              | Some (Inr v, w4) \<Rightarrow> Some (Inr action, w4))))
 \<and> (isPlainObject action \<longleftrightarrow> (\<exists>ob. action = JObj ob \<and> chainLength ob = 1))"
proof -
  have "dispatch (Suc n) E w action =
        (case run n E (w\<lparr>isDispatching := True\<rparr>) (E (currentReducer w) [currentState w, action]) of
           None \<Rightarrow> None
         | Some (Inl e, w1) \<Rightarrow> Some (Inl e, w)
         | Some (Inr s, w1) \<Rightarrow>
             (case notify n E (w\<lparr>currentState := s, currentListeners := nextListeners w\<rparr>)
                     (nextListeners w) 0 of
                None \<Rightarrow> None
              | Some (Inl e, w4) \<Rightarrow> Some (Inl e, w4)
              | Some (Inr v, w4) \<Rightarrow> Some (Inr action, w4)))"
    if "isPlainObject action" "actionType action \<noteq> JUndefined" "\<not> isDispatching w"
    using dispatch_idle [of w action n E, unfolded commit_def acceptable_def] that
    by (simp add: typeof_undefined del: dispatch.simps)
  moreover have "dispatch (Suc n) E w action = Some (Inl ActionNotPlainObject, w)"
    if "\<not> isPlainObject action"
    using that by simp
  moreover have "dispatch (Suc n) E w action = Some (Inl ActionTypeUndefined, w)"
    if "isPlainObject action" "actionType action = JUndefined"
    using that by simp
  moreover have "dispatch (Suc n) E w action = Some (Inl ReducersMayNotDispatch, w)"
    if "isPlainObject action" "actionType action \<noteq> JUndefined" "isDispatching w"
    using that by (simp add: typeof_undefined)
  ultimately show ?thesis
    using isPlainObject_chain [of action] by blast
qed

theorem action_shape_validation_witness:
  "dispatch 1 (\<lambda>f args. Return JUndefined) (initial 0 (JNum 5)) (JNum 3)
     = Some (Inl ActionNotPlainObject, initial 0 (JNum 5))
 \<and> dispatch 1 (\<lambda>f args. Return JUndefined) (initial 0 (JNum 5))
       (JObj (JsObj (Some ObjectPrototype) [(''kind'', JStr ''INC'')]))
     = Some (Inl ActionTypeUndefined, initial 0 (JNum 5))
 \<and> dispatch 1 (\<lambda>f args. Return JUndefined) (initial 0 (JNum 5))
       (JObj (JsObj (Some (JsObj (Some ObjectPrototype) [])) [(''type'', JStr ''INC'')]))
     = Some (Inl ActionNotPlainObject, initial 0 (JNum 5))
 \<and> dispatch 2 (\<lambda>f args. Return (JNum 6)) (initial 0 (JNum 5)) (typeOnly ''INC'')
     = Some (Inr (typeOnly ''INC''), (initial 0 (JNum 5))\<lparr>currentState := JNum 6\<rparr>)"
proof -
  let ?E = "\<lambda>(f::nat) (args::jsval list). Return JUndefined"
  let ?F = "\<lambda>(f::nat) (args::jsval list). Return (JNum 6)"
  let ?w = "initial 0 (JNum 5)"
  let ?a = "JObj (JsObj (Some ObjectPrototype) [(''kind'', JStr ''INC'')])"
  let ?b = "JObj (JsObj (Some (JsObj (Some ObjectPrototype) [])) [(''type'', JStr ''INC'')])"
  have 1: "\<not> isPlainObject (JNum 3)" by (simp add: isPlainObject_def)
  have 2: "isPlainObject ?a \<and> actionType ?a = JUndefined"
    by (simp add: isPlainObject_def getPrototypeOf_def ObjectPrototype_def actionType_def)
  have 3: "\<not> isPlainObject ?b"
    by (simp add: isPlainObject_def getPrototypeOf_def ObjectPrototype_def)
  have 4: "isPlainObject (typeOnly ''INC'') \<and> actionType (typeOnly ''INC'') \<noteq> JUndefined
           \<and> \<not> isDispatching ?w"
    by (simp add: isPlainObject_def getPrototypeOf_def ObjectPrototype_def actionType_def
        typeOnly_def initial_def)
  from action_shape_validation [of "JNum 3" 0 ?E ?w] 1
       action_shape_validation [of ?a 0 ?E ?w] 2
       action_shape_validation [of ?b 0 ?E ?w] 3
       action_shape_validation [of "typeOnly ''INC''" 1 ?F ?w] 4
  show ?thesis
    by (simp add: eval_nat_numeral initial_def del: dispatch.simps)
qed

section \<open>Calls made while the reducer runs\<close>

text \<open>
  Claim C4 as stated fails for \<open>unsubscribe\<close>. A store is created with preloaded state 5;
  listener 7 is subscribed and unsubscribed again. The reducer, on an action of type
  \<open>A\<close>, calls that \<open>unsubscribe\<close> once more and returns 6: the call, made while the flag
  is set, raises nothing, and the dispatch completes with state 6.
\<close>

theorem reentrancy_guard_counterexample:
  "(case createStore 3
           (\<lambda>f args. case args of
                        [s, a] \<Rightarrow> if actionType a = JStr ''A''
                                  then Unsubscribe 0 (Return (JNum 6)) else Return s
                      | _ \<Rightarrow> Return JUndefined)
           (ActionTypes ''x'' ''y'') (JFun 0) (JNum 5) JUndefined JUndefined of
      Some (Inr (Store w0)) \<Rightarrow>
        map_option (\<lambda>(r, w'). (r, currentState w'))
          (dispatch 4
             (\<lambda>f args. case args of
                          [s, a] \<Rightarrow> if actionType a = JStr ''A''
                                    then Unsubscribe 0 (Return (JNum 6)) else Return s
                        | _ \<Rightarrow> Return JUndefined)
             (snd (unsubscribe (snd (subscribe w0 (JFun 7))) 0))
             (typeOnly ''A''))
    | _ \<Rightarrow> None)
   = Some (Inr (typeOnly ''A''), JNum 6)"
  by (simp add: eval_nat_numeral createStore_def ActionTypes_def isPlainObject_def typeOnly_def
      ObjectPrototype_def getPrototypeOf_def actionType_def subscribe_def unsubscribe_def
      initial_def ensureCanMutateNextListeners_def indexOf_def splice1_def Let_def)

text \<open>
  Claim C4, amended. While the dispatch flag is set, \<open>getState\<close>, \<open>subscribe\<close>, \<open>dispatch\<close>
  and the \<open>unsubscribe\<close> of a subscription that is still active end at once with an error
  and leave the store as it was; the \<open>unsubscribe\<close> of a subscription already cancelled
  returns without error and without effect. While the flag is clear no operation is
  refused for reentrancy: \<open>getState\<close> returns the state, \<open>subscribe\<close> of a function
  returns its \<open>unsubscribe\<close>, \<open>unsubscribe\<close> returns, and \<open>dispatch\<close> of an action of the
  right shape goes on to call the reducer.
\<close>

theorem reentrancy_guard:
  "(isDispatching w \<longrightarrow>
      getState w = Inl GetStateWhileReducing
    \<and> subscribe w (JFun f) = (Inl SubscribeWhileReducing, w)
    \<and> (\<exists>e. subscribe w l = (Inl e, w))
    \<and> (\<exists>e. dispatch (Suc n) E w action = Some (Inl e, w))
    \<and> (acceptable action \<longrightarrow> dispatch (Suc n) E w action = Some (Inl ReducersMayNotDispatch, w))
    \<and> (h < length (subs w) \<and> snd (subs w ! h) \<longrightarrow>
          unsubscribe w h = (Inl UnsubscribeWhileReducing, w))
    \<and> (h < length (subs w) \<and> \<not> snd (subs w ! h) \<longrightarrow>
          unsubscribe w h = (Inr JUndefined, w)))
 \<and> (\<not> isDispatching w \<longrightarrow>
      getState w = Inr (currentState w)
    \<and> fst (subscribe w (JFun f)) = Inr (length (subs w))
    \<and> (h < length (subs w) \<longrightarrow> fst (unsubscribe w h) = Inr JUndefined)
    \<and> (acceptable action \<longrightarrow>
          dispatch (Suc n) E w action =
            (case run n E (w\<lparr>isDispatching := True\<rparr>)
                    (E (currentReducer w) [currentState w, action]) of
               None \<Rightarrow> None
             | Some (Inl e, w1) \<Rightarrow> Some (Inl e, w)
             | Some (Inr s, w1) \<Rightarrow>
                 (case notify n E (w\<lparr>currentState := s, currentListeners := nextListeners w\<rparr>)
                         (nextListeners w) 0 of
                    None \<Rightarrow> None
                  | Some (Inl e, w4) \<Rightarrow> Some (Inl e, w4)
                  | Some (Inr v, w4) \<Rightarrow> Some (Inr action, w4)))))"
proof (intro conjI impI)
  assume r: "isDispatching w"
  show "getState w = Inl GetStateWhileReducing" using r by (simp add: getState_def)
  show "subscribe w (JFun f) = (Inl SubscribeWhileReducing, w)" using r by (simp add: subscribe_def)
  show "\<exists>e. subscribe w l = (Inl e, w)" using r by (cases l) (simp_all add: subscribe_def)
  show "\<exists>e. dispatch (Suc n) E w action = Some (Inl e, w)" using r by simp
  show "dispatch (Suc n) E w action = Some (Inl ReducersMayNotDispatch, w)" if "acceptable action"
    using r that by (simp add: acceptable_def)
  show "unsubscribe w h = (Inl UnsubscribeWhileReducing, w)"
    if "h < length (subs w) \<and> snd (subs w ! h)"
    using r that by (simp add: unsubscribe_def)
  show "unsubscribe w h = (Inr JUndefined, w)"
    if "h < length (subs w) \<and> \<not> snd (subs w ! h)"
    using that by (simp add: unsubscribe_def)
next
  assume i: "\<not> isDispatching w"
  show "getState w = Inr (currentState w)" using i by (simp add: getState_def)
  show "fst (subscribe w (JFun f)) = Inr (length (subs w))"
    using i by (simp add: subscribe_def Let_def)
  show "fst (unsubscribe w h) = Inr JUndefined" if "h < length (subs w)"
    using i that by (simp add: unsubscribe_def Let_def)
  show "dispatch (Suc n) E w action =
            (case run n E (w\<lparr>isDispatching := True\<rparr>)
                    (E (currentReducer w) [currentState w, action]) of
               None \<Rightarrow> None
             | Some (Inl e, w1) \<Rightarrow> Some (Inl e, w)
             | Some (Inr s, w1) \<Rightarrow>
                 (case notify n E (w\<lparr>currentState := s, currentListeners := nextListeners w\<rparr>)
                         (nextListeners w) 0 of
                    None \<Rightarrow> None
                  | Some (Inl e, w4) \<Rightarrow> Some (Inl e, w4)
                  | Some (Inr v, w4) \<Rightarrow> Some (Inr action, w4)))" if "acceptable action"
    using dispatch_idle [OF i that, of n E, unfolded commit_def] .
qed

theorem reentrancy_guard_witness:
  "dispatch 3 (\<lambda>f args. GetState Return)
      ((initial 0 (JNum 5))\<lparr>subs := [(7, True)], arrays := (\<lambda>a. [7])\<rparr>) (typeOnly ''A'')
     = Some (Inl GetStateWhileReducing, (initial 0 (JNum 5))\<lparr>subs := [(7, True)], arrays := (\<lambda>a. [7])\<rparr>)
 \<and> dispatch 3 (\<lambda>f args. Subscribe (JFun 8) (\<lambda>h. Return JUndefined))
      ((initial 0 (JNum 5))\<lparr>subs := [(7, True)], arrays := (\<lambda>a. [7])\<rparr>) (typeOnly ''A'')
     = Some (Inl SubscribeWhileReducing, (initial 0 (JNum 5))\<lparr>subs := [(7, True)], arrays := (\<lambda>a. [7])\<rparr>)
 \<and> dispatch 3 (\<lambda>f args. Unsubscribe 0 (Return JUndefined))
      ((initial 0 (JNum 5))\<lparr>subs := [(7, True)], arrays := (\<lambda>a. [7])\<rparr>) (typeOnly ''A'')
     = Some (Inl UnsubscribeWhileReducing, (initial 0 (JNum 5))\<lparr>subs := [(7, True)], arrays := (\<lambda>a. [7])\<rparr>)
 \<and> dispatch 3 (\<lambda>f args. Dispatch (typeOnly ''B'') Return)
      ((initial 0 (JNum 5))\<lparr>subs := [(7, True)], arrays := (\<lambda>a. [7])\<rparr>) (typeOnly ''A'')
     = Some (Inl ReducersMayNotDispatch, (initial 0 (JNum 5))\<lparr>subs := [(7, True)], arrays := (\<lambda>a. [7])\<rparr>)"
proof -
  let ?w = "(initial 0 (JNum 5))\<lparr>subs := [(7, True)], arrays := (\<lambda>a. [7])\<rparr>"
  let ?r = "?w\<lparr>isDispatching := True\<rparr>"
  let ?A = "typeOnly ''A''"
  have r: "isDispatching ?r" and i: "\<not> isDispatching ?w" by (simp_all add: initial_def)
  have h: "0 < length (subs ?r) \<and> snd (subs ?r ! 0)" by simp
  have a: "acceptable ?A" "acceptable (typeOnly ''B'')" by (rule acceptable_typeOnly)+
  note inner = reentrancy_guard [of ?r 8 JNull 0 "\<lambda>f args. Return JUndefined" "typeOnly ''B''" 0]
  have g: "run 2 (\<lambda>f args. GetState Return) ?r (GetState Return) = Some (Inl GetStateWhileReducing, ?r)"
    using inner r by (simp add: eval_nat_numeral)
  have s: "run 2 (\<lambda>f args. Subscribe (JFun 8) (\<lambda>h. Return JUndefined)) ?r
             (Subscribe (JFun 8) (\<lambda>h. Return JUndefined)) = Some (Inl SubscribeWhileReducing, ?r)"
    using inner r by (simp add: eval_nat_numeral)
  have u: "run 2 (\<lambda>f args. Unsubscribe 0 (Return JUndefined)) ?r
             (Unsubscribe 0 (Return JUndefined)) = Some (Inl UnsubscribeWhileReducing, ?r)"
    using inner r h by (simp add: eval_nat_numeral)
  have d: "run 2 (\<lambda>f args. Dispatch (typeOnly ''B'') Return) ?r
             (Dispatch (typeOnly ''B'') Return) = Some (Inl ReducersMayNotDispatch, ?r)"
    using reentrancy_guard [of ?r 8 JNull 0 "\<lambda>f args. Dispatch (typeOnly ''B'') Return" "typeOnly ''B''" 0] r a(2)
    by (simp add: eval_nat_numeral del: dispatch.simps)
  have 3: "(3::nat) = Suc 2" by simp
  show ?thesis
    using reentrancy_guard [of ?w 8 JNull 2 "\<lambda>f args. GetState Return" ?A 0]
          reentrancy_guard [of ?w 8 JNull 2 "\<lambda>f args. Subscribe (JFun 8) (\<lambda>h. Return JUndefined)" ?A 0]
          reentrancy_guard [of ?w 8 JNull 2 "\<lambda>f args. Unsubscribe 0 (Return JUndefined)" ?A 0]
          reentrancy_guard [of ?w 8 JNull 2 "\<lambda>f args. Dispatch (typeOnly ''B'') Return" ?A 0]
          i a(1) g s u d
    unfolding 3 by (simp del: dispatch.simps run.simps)
qed

section \<open>The contract of unsubscribe\<close>

lemma cancelled_subscribe: "subscribe w l = (r, w') \<Longrightarrow> cancelled w h \<Longrightarrow> cancelled w' h"
  by (auto simp: subscribe_def cancelled_def ensure_subs Let_def nth_append
      split: jsval.splits if_splits)

lemma cancelled_unsubscribe: "unsubscribe w k = (r, w') \<Longrightarrow> cancelled w h \<Longrightarrow> cancelled w' h"
  by (auto simp: unsubscribe_def cancelled_def ensure_subs Let_def nth_list_update
      split: if_splits)

lemma cancelled_all:
  "(\<forall>w p r w'. run n E w p = Some (r, w') \<longrightarrow> cancelled w h \<longrightarrow> cancelled w' h)
 \<and> (\<forall>w x r w'. dispatch n E w x = Some (r, w') \<longrightarrow> cancelled w h \<longrightarrow> cancelled w' h)
 \<and> (\<forall>w b i r w'. notify n E w b i = Some (r, w') \<longrightarrow> cancelled w h \<longrightarrow> cancelled w' h)"
proof (rule preserved)
  show "cancelled w h \<longrightarrow> cancelled w h" for w by simp
  show "cancelled w1 h \<longrightarrow> cancelled w2 h \<Longrightarrow> cancelled w2 h \<longrightarrow> cancelled w3 h
        \<Longrightarrow> cancelled w1 h \<longrightarrow> cancelled w3 h" for w1 w2 w3 by simp
  show "subscribe w l = (r, w') \<Longrightarrow> cancelled w h \<longrightarrow> cancelled w' h" for w l r w'
    by (simp add: cancelled_subscribe)
  show "unsubscribe w k = (r, w') \<Longrightarrow> cancelled w h \<longrightarrow> cancelled w' h" for w k r w'
    by (simp add: cancelled_unsubscribe)
  show "cancelled w h \<longrightarrow> cancelled (commit w s) h" for w s by (simp add: cancelled_def commit_def)
  show "cancelled w h \<longrightarrow> cancelled (w\<lparr>notified := notified w @ [l]\<rparr>) h" for w l
    by (simp add: cancelled_def)
qed

lemma cancelled_run: "run n E w p = Some (r, w') \<Longrightarrow> cancelled w h \<Longrightarrow> cancelled w' h"
  using cancelled_all [of n E h] by blast

lemma unsubscribe_cancelled: "cancelled w h \<Longrightarrow> unsubscribe w h = (Inr JUndefined, w)"
  by (simp add: cancelled_def unsubscribe_def)

text \<open>
  Claim C9 as stated fails in its last part: on a new store where listener 7 was
  subscribed and unsubscribed, the same \<open>unsubscribe\<close> called again while the dispatch
  flag is set returns \<open>undefined\<close>, raises nothing and changes nothing.
\<close>

theorem unsubscribe_contract_counterexample:
  "(case createStore 3 (\<lambda>f args. case args of [] \<Rightarrow> Return JUndefined | s # rest \<Rightarrow> Return s)
           (ActionTypes ''x'' ''y'') (JFun 0) (JNum 5) JUndefined JUndefined of
      Some (Inr (Store w0)) \<Rightarrow>
        unsubscribe (snd (unsubscribe (snd (subscribe w0 (JFun 7))) 0)\<lparr>isDispatching := True\<rparr>) 0
        = (Inr JUndefined,
           snd (unsubscribe (snd (subscribe w0 (JFun 7))) 0)\<lparr>isDispatching := True\<rparr>)
    | _ \<Rightarrow> False)"
  by (simp add: eval_nat_numeral createStore_def ActionTypes_def isPlainObject_def typeOnly_def
      ObjectPrototype_def getPrototypeOf_def actionType_def subscribe_def unsubscribe_def
      initial_def ensureCanMutateNextListeners_def indexOf_def splice1_def Let_def)

text \<open>
  Claim C9, amended. For the \<open>unsubscribe\<close> of a subscription of listener \<open>l\<close> that is
  still active: called while the store is idle it returns, the next-list held \<open>l\<close> and
  now holds one entry equal to \<open>l\<close> less (the first one), all other entries in their order;
  the write went to an array other than the one of \<open>currentListeners\<close>, a new copy when
  the references aliased. Every later call, at once or after any further operations on the
  store, idle or with the flag set, returns without error and changes nothing. Called
  while the dispatch flag is set, the still active \<open>unsubscribe\<close> ends with an error and
  changes nothing.
\<close>

theorem unsubscribe_contract:
  assumes "store_inv w" and "h < length (subs w)" and "subs w ! h = (l, True)"
  shows "(\<not> isDispatching w \<longrightarrow>
           (\<exists>w'. unsubscribe w h = (Inr JUndefined, w')
              \<and> l \<in> set (arrays w (nextListeners w))
              \<and> arrays w' (nextListeners w') = remove1 l (arrays w (nextListeners w))
              \<and> mset (arrays w' (nextListeners w')) + {#l#} = mset (arrays w (nextListeners w))
              \<and> nextListeners w' \<noteq> currentListeners w'
              \<and> (nextListeners w = currentListeners w \<longrightarrow> nextListeners w' = nalloc w)
              \<and> arrays w' (currentListeners w') = arrays w (currentListeners w)
              \<and> unsubscribe w' h = (Inr JUndefined, w')
              \<and> (\<forall>n E p r w''. run n E w' p = Some (r, w'') \<longrightarrow>
                    unsubscribe w'' h = (Inr JUndefined, w'')
                  \<and> unsubscribe (w''\<lparr>isDispatching := True\<rparr>) h
                      = (Inr JUndefined, w''\<lparr>isDispatching := True\<rparr>))))
       \<and> (isDispatching w \<longrightarrow> unsubscribe w h = (Inl UnsubscribeWhileReducing, w))"
proof (intro conjI impI)
  assume idle: "\<not> isDispatching w"
  from unsubscribe_idle [OF assms(1) idle assms(2,3)] obtain w' where
    u: "unsubscribe w h = (Inr JUndefined, w')"
    and a: "nextListeners w' \<noteq> currentListeners w'"
    and f: "nextListeners w = currentListeners w \<longrightarrow> nextListeners w' = nalloc w"
    and c: "arrays w' (currentListeners w') = arrays w (currentListeners w)"
    and m: "l \<in> set (arrays w (nextListeners w))"
    and x: "arrays w' (nextListeners w') = remove1 l (arrays w (nextListeners w))"
    and s: "subs w' = (subs w)[h := (l, False)]"
    by blast
  have ms: "mset (arrays w' (nextListeners w')) + {#l#} = mset (arrays w (nextListeners w))"
    using m x by simp
  have ca: "cancelled w' h" using s assms(2) by (simp add: cancelled_def)
  have later: "unsubscribe w'' h = (Inr JUndefined, w'')
             \<and> unsubscribe (w''\<lparr>isDispatching := True\<rparr>) h = (Inr JUndefined, w''\<lparr>isDispatching := True\<rparr>)"
    if "run n E w' p = Some (r, w'')" for n E p r w''
  proof -
    from cancelled_run [OF that ca] have "cancelled w'' h" .
    moreover from this have "cancelled (w''\<lparr>isDispatching := True\<rparr>) h" by (simp add: cancelled_def)
    ultimately show ?thesis by (simp add: unsubscribe_cancelled)
  qed
  from u m x ms a f c unsubscribe_cancelled [OF ca] later
  show "\<exists>w'. unsubscribe w h = (Inr JUndefined, w')
              \<and> l \<in> set (arrays w (nextListeners w))
              \<and> arrays w' (nextListeners w') = remove1 l (arrays w (nextListeners w))
              \<and> mset (arrays w' (nextListeners w')) + {#l#} = mset (arrays w (nextListeners w))
              \<and> nextListeners w' \<noteq> currentListeners w'
              \<and> (nextListeners w = currentListeners w \<longrightarrow> nextListeners w' = nalloc w)
              \<and> arrays w' (currentListeners w') = arrays w (currentListeners w)
              \<and> unsubscribe w' h = (Inr JUndefined, w')
              \<and> (\<forall>n E p r w''. run n E w' p = Some (r, w'') \<longrightarrow>
                    unsubscribe w'' h = (Inr JUndefined, w'')
                  \<and> unsubscribe (w''\<lparr>isDispatching := True\<rparr>) h
                      = (Inr JUndefined, w''\<lparr>isDispatching := True\<rparr>))"
    by blast
next
  assume "isDispatching w"
  with assms(2,3) show "unsubscribe w h = (Inl UnsubscribeWhileReducing, w)"
    by (simp add: unsubscribe_def)
qed

theorem unsubscribe_contract_witness:
  "\<exists>w'. unsubscribe (snd (subscribe (snd (subscribe (initial 0 (JNum 5)) (JFun 7))) (JFun 7))) 0
          = (Inr JUndefined, w')
      \<and> arrays w' (nextListeners w') = [7]
      \<and> unsubscribe w' 0 = (Inr JUndefined, w')
      \<and> unsubscribe (snd (subscribe (snd (subscribe (initial 0 (JNum 5)) (JFun 7))) (JFun 7))
                        \<lparr>isDispatching := True\<rparr>) 1
          = (Inl UnsubscribeWhileReducing,
             snd (subscribe (snd (subscribe (initial 0 (JNum 5)) (JFun 7))) (JFun 7))
               \<lparr>isDispatching := True\<rparr>)"
proof -
  let ?w = "snd (subscribe (snd (subscribe (initial 0 (JNum 5)) (JFun 7))) (JFun 7))"
  have w: "?w = \<lparr>currentReducer = 0, currentState = JNum 5, currentListeners = 0,
                 nextListeners = 1, isDispatching = False,
                 arrays = (\<lambda>a. [])(1 := [7, 7]), nalloc = 2,
                 subs = [(7, True), (7, True)], notified = []\<rparr>"
    by (simp add: subscribe_def initial_def ensureCanMutateNextListeners_def Let_def)
  have 1: "store_inv ?w" unfolding w by (simp add: store_inv_def)
  have 2: "0 < length (subs ?w)" "subs ?w ! 0 = (7, True)" "\<not> isDispatching ?w"
    unfolding w by simp_all
  have 3: "store_inv (?w\<lparr>isDispatching := True\<rparr>)"
    "1 < length (subs (?w\<lparr>isDispatching := True\<rparr>))"
    "subs (?w\<lparr>isDispatching := True\<rparr>) ! 1 = (7, True)"
    "isDispatching (?w\<lparr>isDispatching := True\<rparr>)"
    unfolding w by (simp_all add: store_inv_def)
  from unsubscribe_contract [OF 1 2(1,2)] 2(3) unsubscribe_contract [OF 3(1,2,3)] 3(4)
  show ?thesis
    unfolding w by auto
qed

section \<open>Composition\<close>

lemma foldl_compose:
  "foldl (\<lambda>a b. (\<lambda>args. a [b args])) f (g # gs) args = f [nested g gs args]"
proof (induction gs arbitrary: f g)
  case Nil
  show ?case by simp
next
  case (Cons h hs)
  have "foldl (\<lambda>a b. (\<lambda>args. a [b args])) f (g # h # hs) args
        = foldl (\<lambda>a b. (\<lambda>args. a [b args])) (\<lambda>args. f [g args]) (h # hs) args"
    by simp
  also have "\<dots> = f [g [nested h hs args]]"
    by (rule Cons.IH)
  finally show ?case by simp
qed

lemma compose_many: "compose u (f # g # fs) args = nested f (g # fs) args"
  unfolding compose_def using foldl_compose [of f g fs args] by simp

text \<open>
  Claim C6. The function \<open>compose()\<close> gives back its first argument (\<open>undefined\<close> when
  called with none); \<open>compose(f)\<close> is \<open>f\<close>;
  for two or more functions \<open>compose(f1, ..., fn)(...args)\<close> is \<open>f1(f2(... fn(...args)))\<close>:
  the last function receives the arguments, every other one the single result of its
  right neighbour. In particular \<open>compose(f, g, h)(x, y) = f(g(h(x, y)))\<close>.
\<close>

theorem compose_semantics:
  "compose u [] (x # xs) = x
 \<and> compose u [] [] = u
 \<and> compose u [f] = f
 \<and> compose u (f # g # fs) args = f [nested g fs args]
 \<and> compose u [f, g, h] [x, y] = f [g [h [x, y]]]"
  using compose_many [of u f g fs args] compose_many [of u f g "[h]" "[x, y]"]
  by (simp add: compose_def)

lemma nested_unary: "nested f fs [x] = foldr (\<lambda>link next. link [next]) (f # fs) x"
  by (induction fs arbitrary: f) simp_all

section \<open>Middleware\<close>

lemma compose_unary: "compose u chain [x] = foldr (\<lambda>link next. link [next]) chain x"
proof (cases chain)
  case Nil
  then show ?thesis by (simp add: compose_def)
next
  case (Cons f fs)
  show ?thesis
  proof (cases fs)
    case Nil
    with Cons show ?thesis by (simp add: compose_def)
  next
    case (Cons g gs)
    with \<open>chain = f # fs\<close> show ?thesis
      by (simp only: compose_many nested_unary)
  qed
qed

lemma layer_next:
  "layer pre post [next] args st =
     (case next args (pre st) of
        None \<Rightarrow> None
      | Some (Inl e, st') \<Rightarrow> Some (Inl e, st')
      | Some (Inr v, st') \<Rightarrow> Some (Inr v, post st'))"
  by (simp add: layer_def)

lemma foldr_layer:
  "foldr (\<lambda>link next. link [next]) (map (\<lambda>(pre, post). layer pre post) pps) raw args st =
     (case raw args (fold fst pps st) of
        None \<Rightarrow> None
      | Some (Inl e, st') \<Rightarrow> Some (Inl e, st')
      | Some (Inr v, st') \<Rightarrow> Some (Inr v, fold snd (rev pps) st'))"
proof (induction pps arbitrary: st)
  case Nil
  show ?case by (auto split: option.splits sum.splits)
next
  case (Cons pp pps)
  obtain pre post where pp: "pp = (pre, post)" by (cases pp)
  let ?inner = "foldr (\<lambda>link next. link [next]) (map (\<lambda>(pre, post). layer pre post) pps) raw"
  have "foldr (\<lambda>link next. link [next]) (map (\<lambda>(pre, post). layer pre post) (pp # pps)) raw args st
        = layer pre post [?inner] args st"
    by (simp add: pp)
  also have "\<dots> = (case ?inner args (pre st) of
        None \<Rightarrow> None
      | Some (Inl e, st') \<Rightarrow> Some (Inl e, st')
      | Some (Inr v, st') \<Rightarrow> Some (Inr v, post st'))"
    by (rule layer_next)
  also have "\<dots> = (case raw args (fold fst (pp # pps) st) of
        None \<Rightarrow> None
      | Some (Inl e, st') \<Rightarrow> Some (Inl e, st')
      | Some (Inr v, st') \<Rightarrow> Some (Inr v, fold snd (rev (pp # pps)) st'))"
    unfolding Cons.IH by (simp add: pp split: option.splits sum.splits prod.splits)
  finally show ?case .
qed

lemma foldr_layer_api:
  "foldr (\<lambda>link next. link [next])
     (map (\<lambda>middleware. middleware api) (map (\<lambda>(pre, post) api. layer (pre api) (post api)) pps))
     raw args st =
     (case raw args (fold (\<lambda>(pre, post). pre api) pps st) of
        None \<Rightarrow> None
      | Some (Inl e, st') \<Rightarrow> Some (Inl e, st')
      | Some (Inr v, st') \<Rightarrow> Some (Inr v, fold (\<lambda>(pre, post). post api) (rev pps) st'))"
proof -
  let ?qs = "map (\<lambda>(pre, post). (pre api, post api)) pps"
  have m: "map (\<lambda>middleware. middleware api) (map (\<lambda>(pre, post) api. layer (pre api) (post api)) pps)
           = map (\<lambda>(pre, post). layer pre post) ?qs"
    by (induction pps) auto
  have f: "fold fst ?qs = fold (\<lambda>(pre, post). pre api) pps"
    by (simp add: fold_map comp_def case_prod_unfold)
  have g: "fold snd (rev ?qs) = fold (\<lambda>(pre, post). post api) (rev pps)"
    by (simp add: fold_map comp_def case_prod_unfold rev_map)
  show ?thesis unfolding m foldr_layer f g ..
qed

text \<open>
  Claim C5. The dispatch of the store that \<open>applyMiddleware\<close> returns is the link of the
  first middleware applied to the link of the second and so on, the last link applied to
  the dispatch of the underlying store; with no middleware it is that dispatch. So the
  \<open>next\<close> of each middleware is the dispatch built from the middlewares listed after it.
  \<open>getState\<close> and the other fields of the store are unchanged. For middlewares that run
  code before and after \<open>next(action)\<close>, a dispatch runs the code before in the order of the
  list, then the store's dispatch, then (when that returns) the code after in the reverse
  order.
\<close>

theorem middleware_onion:
  "dispatch_of (applyMiddleware u forward ms createStore' args)
     = foldr (\<lambda>link next. link [next])
         (map (\<lambda>middleware. middleware
                  \<lparr>api_getState = getState_of (createStore' args), api_dispatch = forward\<rparr>) ms)
         (dispatch_of (createStore' args))
 \<and> dispatch_of (applyMiddleware u forward [] createStore' args) = dispatch_of (createStore' args)
 \<and> dispatch_of (applyMiddleware u forward (m # ms) createStore' args)
     = m \<lparr>api_getState = getState_of (createStore' args), api_dispatch = forward\<rparr>
         [dispatch_of (applyMiddleware u forward ms createStore' args)]
 \<and> getState_of (applyMiddleware u forward ms createStore' args) = getState_of (createStore' args)
 \<and> store.more (applyMiddleware u forward ms createStore' args) = store.more (createStore' args)
 \<and> dispatch_of (applyMiddleware u forward
        (map (\<lambda>(pre, post) api. layer (pre api) (post api)) pps) createStore' args) action st
     = (case dispatch_of (createStore' args) action
               (fold (\<lambda>(pre, post). pre \<lparr>api_getState = getState_of (createStore' args),
                                            api_dispatch = forward\<rparr>) pps st) of
          None \<Rightarrow> None
        | Some (Inl e, st') \<Rightarrow> Some (Inl e, st')
        | Some (Inr v, st') \<Rightarrow>
            Some (Inr v, fold (\<lambda>(pre, post). post \<lparr>api_getState = getState_of (createStore' args),
                                                     api_dispatch = forward\<rparr>) (rev pps) st'))"
proof -
  let ?api = "\<lparr>api_getState = getState_of (createStore' args), api_dispatch = forward\<rparr>"
  let ?raw = "dispatch_of (createStore' args)"
  have d: "dispatch_of (applyMiddleware u forward ms createStore' args)
           = foldr (\<lambda>link next. link [next]) (map (\<lambda>middleware. middleware ?api) ms) ?raw" for ms
    by (simp add: applyMiddleware_def Let_def compose_unary)
  have 1: "dispatch_of (applyMiddleware u forward [] createStore' args) = ?raw"
    unfolding d by simp
  have 2: "dispatch_of (applyMiddleware u forward (m # ms) createStore' args)
           = m ?api [dispatch_of (applyMiddleware u forward ms createStore' args)]"
    unfolding d by simp
  have 3: "getState_of (applyMiddleware u forward ms createStore' args) = getState_of (createStore' args)"
    "store.more (applyMiddleware u forward ms createStore' args) = store.more (createStore' args)"
    by (simp_all add: applyMiddleware_def Let_def)
  have 4: "dispatch_of (applyMiddleware u forward
        (map (\<lambda>(pre, post) api. layer (pre api) (post api)) pps) createStore' args) action st
     = (case ?raw action (fold (\<lambda>(pre, post). pre ?api) pps st) of
          None \<Rightarrow> None
        | Some (Inl e, st') \<Rightarrow> Some (Inl e, st')
        | Some (Inr v, st') \<Rightarrow> Some (Inr v, fold (\<lambda>(pre, post). post ?api) (rev pps) st'))"
    unfolding d by (rule foldr_layer_api)
  from d [of ms] 1 2 3 4 show ?thesis by blast
qed

theorem middleware_onion_witness:
  "dispatch_of
     (applyMiddleware (\<lambda>args st. None) (\<lambda>args st. None)
        [\<lambda>api. layer (\<lambda>(w, t). (w, t @ [''m1 in''])) (\<lambda>(w, t). (w, t @ [''m1 out''])),
         \<lambda>api. layer (\<lambda>(w, t). (w, t @ [''m2 in''])) (\<lambda>(w, t). (w, t @ [''m2 out'']))]
        (\<lambda>(r, s). \<lparr>getState_of = (\<lambda>(w, t). getState w),
                    dispatch_of = (\<lambda>args (w, t).
                       case args of
                         [] \<Rightarrow> Some (Inl ActionNotPlainObject, (w, t))
                       | a # rest \<Rightarrow>
                           map_option (\<lambda>(r, w'). (r, (w', t @ [''store''])))
                             (dispatch 2 (\<lambda>f args. Return (JNum 6)) w a))\<rparr>)
        (0, JNum 5))
     [typeOnly ''INC''] (initial 0 (JNum 5), [])
   = Some (Inr (typeOnly ''INC''),
           ((initial 0 (JNum 5))\<lparr>currentState := JNum 6\<rparr>,
            [''m1 in'', ''m2 in'', ''store'', ''m2 out'', ''m1 out'']))"
proof -
  have d: "dispatch 2 (\<lambda>f args. Return (JNum 6)) (initial 0 (JNum 5)) (typeOnly ''INC'')
        = Some (Inr (typeOnly ''INC''), (initial 0 (JNum 5))\<lparr>currentState := JNum 6\<rparr>)"
    by (simp add: eval_nat_numeral isPlainObject_def typeOnly_def ObjectPrototype_def
      getPrototypeOf_def actionType_def initial_def)
  note middleware_onion
    [where pps = "[(\<lambda>api (w, t). (w, t @ [''m1 in'']), \<lambda>api (w, t). (w, t @ [''m1 out''])),
                   (\<lambda>api (w, t). (w, t @ [''m2 in'']), \<lambda>api (w, t). (w, t @ [''m2 out'']))]"
       and u = "\<lambda>args st. None" and forward = "\<lambda>args st. None"
       and createStore' = "\<lambda>(r, s). \<lparr>getState_of = (\<lambda>(w, t). getState w),
                    dispatch_of = (\<lambda>args (w, t).
                       case args of
                         [] \<Rightarrow> Some (Inl ActionNotPlainObject, (w, t))
                       | a # rest \<Rightarrow>
                           map_option (\<lambda>(r, w'). (r, (w', t @ [''store''])))
                             (dispatch 2 (\<lambda>f args. Return (JNum 6)) w a))\<rparr>"
       and args = "(0, JNum 5)" and action = "[typeOnly ''INC'']"
       and st = "(initial 0 (JNum 5), [])",
     THEN conjunct2, THEN conjunct2, THEN conjunct2, THEN conjunct2, THEN conjunct2]
  then show ?thesis
    using d by (simp del: dispatch.simps)
qed

end
